theory Spec2Isabelle
  imports Main "HOL-Library.Word"
begin

unbundle bit_operations_syntax

section \<open>A shallow embedding of the paged B+tree table engine (main.c)\<close>

text \<open>
  The program stores fixed-size rows in 4096-byte pages that are read and written through
  byte offsets (\<^verbatim>\<open>node + OFFSET\<close>).  The embedding keeps that view: a page is a function
  from byte offsets to bytes, every header field and every cell is read and written at
  the offset the C code computes, and a \<^verbatim>\<open>void*\<close> into the page cache is represented by
  the number of the slot it points into, so that two pointers to one page alias in the
  model as they do in C.  Multi-byte integers are little-endian (the host order of the
  source's platform).  Offsets of 4096 and more lie outside the buffer; C leaves such
  accesses undefined and no statement below depends on them.
\<close>

type_synonym u8 = "8 word"
type_synonym u32 = "32 word"
type_synonym page = "nat \<Rightarrow> u8"

subsection \<open>Enumerations and structs\<close>

datatype ExecuteResult = EXECUTE_SUCCESS | EXECUTE_DUPLICATE_KEY | EXECUTE_TABLE_FULL

datatype MetaCommandResult = META_COMMAND_SUCCESS | META_COMMAND_UNRECOGNIZED

datatype PrepareResult =
    PREPARE_SUCCESS
  | PREPARE_NEGATIVE_ID
  | PREPARE_STRING_TOO_LONG
  | PREPARE_UNRECOGNIZED
  | PREPARE_SYNTAX_ERROR

datatype StatementType = STATEMENT_INSERT | STATEMENT_SELECT

text \<open>\<^verbatim>\<open>NodeType\<close> is stored in one byte of the page; the two enumerators are its values.\<close>

definition NODE_INTERNAL :: u8 where "NODE_INTERNAL = 0"
definition NODE_LEAF :: u8 where "NODE_LEAF = 1"

definition COLUMN_USERNAME_SIZE :: nat where "COLUMN_USERNAME_SIZE = 32"
definition COLUMN_EMAIL_SIZE :: nat where "COLUMN_EMAIL_SIZE = 255"

text \<open>
  \<^verbatim>\<open>Row\<close>: the two character arrays are byte lists (33 and 256 bytes in C); the
  C string they hold ends at the first NUL.
\<close>

record Row =
  id_field :: u32
  username :: "u8 list"
  email :: "u8 list"

record Statement =
  type :: StatementType
  row :: Row

record InputBuffer =
  buffer :: string
  buffer_length :: nat
  input_length :: int

subsection \<open>Layout constants\<close>

definition TABLE_MAX_PAGES :: u32 where "TABLE_MAX_PAGES = 100"
definition INVALID_PAGE_NUM :: u32 where "INVALID_PAGE_NUM = 0xFFFFFFFF"
definition PAGE_SIZE :: u32 where "PAGE_SIZE = 4096"

definition ID_SIZE :: u32 where "ID_SIZE = 4"
definition USERNAME_SIZE :: u32 where "USERNAME_SIZE = of_nat (COLUMN_USERNAME_SIZE + 1)"
definition EMAIL_SIZE :: u32 where "EMAIL_SIZE = of_nat (COLUMN_EMAIL_SIZE + 1)"
definition ID_OFFSET :: u32 where "ID_OFFSET = 0"
definition USERNAME_OFFSET :: u32 where "USERNAME_OFFSET = ID_OFFSET + ID_SIZE"
definition EMAIL_OFFSET :: u32 where "EMAIL_OFFSET = USERNAME_OFFSET + USERNAME_SIZE"
definition ROW_SIZE :: u32 where "ROW_SIZE = ID_SIZE + USERNAME_SIZE + EMAIL_SIZE"

definition NODE_TYPE_SIZE :: u32 where "NODE_TYPE_SIZE = 1"
definition NODE_TYPE_OFFSET :: u32 where "NODE_TYPE_OFFSET = 0"
definition IS_ROOT_SIZE :: u32 where "IS_ROOT_SIZE = 1"
definition IS_ROOT_OFFSET :: u32 where "IS_ROOT_OFFSET = NODE_TYPE_SIZE"
definition PARENT_POINTER_SIZE :: u32 where "PARENT_POINTER_SIZE = 4"
definition PARENT_POINTER_OFFSET :: u32 where
  "PARENT_POINTER_OFFSET = IS_ROOT_OFFSET + IS_ROOT_SIZE"
definition COMMON_NODE_HEADER_SIZE :: u8 where
  "COMMON_NODE_HEADER_SIZE = ucast (NODE_TYPE_SIZE + IS_ROOT_SIZE + PARENT_POINTER_SIZE)"

definition LEAF_NODE_NUM_CELLS_SIZE :: u32 where "LEAF_NODE_NUM_CELLS_SIZE = 4"
definition LEAF_NODE_NUM_CELLS_OFFSET :: u32 where
  "LEAF_NODE_NUM_CELLS_OFFSET = ucast COMMON_NODE_HEADER_SIZE"
definition LEAF_NODE_NEXT_LEAF_SIZE :: u32 where "LEAF_NODE_NEXT_LEAF_SIZE = 4"
definition LEAF_NODE_NEXT_LEAF_OFFSET :: u32 where
  "LEAF_NODE_NEXT_LEAF_OFFSET = LEAF_NODE_NUM_CELLS_OFFSET + LEAF_NODE_NUM_CELLS_SIZE"
definition LEAF_NODE_HEADER_SIZE :: u32 where
  "LEAF_NODE_HEADER_SIZE =
     ucast COMMON_NODE_HEADER_SIZE + LEAF_NODE_NUM_CELLS_SIZE + LEAF_NODE_NEXT_LEAF_SIZE"

definition LEAF_NODE_KEY_SIZE :: u32 where "LEAF_NODE_KEY_SIZE = 4"
definition LEAF_NODE_KEY_OFFSET :: u32 where "LEAF_NODE_KEY_OFFSET = 0"
definition LEAF_NODE_VALUE_SIZE :: u32 where "LEAF_NODE_VALUE_SIZE = ROW_SIZE"
definition LEAF_NODE_VALUE_OFFSET :: u32 where
  "LEAF_NODE_VALUE_OFFSET = LEAF_NODE_KEY_OFFSET + LEAF_NODE_KEY_SIZE"
definition LEAF_NODE_CELL_SIZE :: u32 where
  "LEAF_NODE_CELL_SIZE = LEAF_NODE_KEY_SIZE + LEAF_NODE_VALUE_SIZE"
definition LEAF_NODE_SPACE_FOR_CELLS :: u32 where
  "LEAF_NODE_SPACE_FOR_CELLS = PAGE_SIZE - LEAF_NODE_HEADER_SIZE"
definition LEAF_NODE_MAX_CELLS :: u32 where
  "LEAF_NODE_MAX_CELLS = LEAF_NODE_SPACE_FOR_CELLS div LEAF_NODE_CELL_SIZE"
definition LEAF_NODE_RIGHT_SPLIT_COUNT :: u32 where
  "LEAF_NODE_RIGHT_SPLIT_COUNT = (LEAF_NODE_MAX_CELLS + 1) div 2"
definition LEAF_NODE_LEFT_SPLIT_COUNT :: u32 where
  "LEAF_NODE_LEFT_SPLIT_COUNT = (LEAF_NODE_MAX_CELLS + 1) - LEAF_NODE_RIGHT_SPLIT_COUNT"

definition INTERNAL_NODE_NUM_KEYS_SIZE :: u32 where "INTERNAL_NODE_NUM_KEYS_SIZE = 4"
definition INTERNAL_NODE_NUM_KEYS_OFFSET :: u32 where
  "INTERNAL_NODE_NUM_KEYS_OFFSET = ucast COMMON_NODE_HEADER_SIZE"
definition INTERNAL_NODE_RIGHT_CHILD_SIZE :: u32 where "INTERNAL_NODE_RIGHT_CHILD_SIZE = 4"
definition INTERNAL_NODE_RIGHT_CHILD_OFFSET :: u32 where
  "INTERNAL_NODE_RIGHT_CHILD_OFFSET = INTERNAL_NODE_NUM_KEYS_OFFSET + INTERNAL_NODE_NUM_KEYS_SIZE"
definition INTERNAL_NODE_HEADER_SIZE :: u32 where
  "INTERNAL_NODE_HEADER_SIZE =
     INTERNAL_NODE_NUM_KEYS_SIZE + INTERNAL_NODE_RIGHT_CHILD_SIZE + ucast COMMON_NODE_HEADER_SIZE"

definition INTERNAL_NODE_KEY_SIZE :: u32 where "INTERNAL_NODE_KEY_SIZE = 4"
definition INTERNAL_NODE_CHILD_SIZE :: u32 where "INTERNAL_NODE_CHILD_SIZE = 4"
definition INTERNAL_NODE_CELL_SIZE :: u32 where
  "INTERNAL_NODE_CELL_SIZE = INTERNAL_NODE_CHILD_SIZE + INTERNAL_NODE_KEY_SIZE"
definition INTERNAL_NODE_MAX_CELLS :: u32 where "INTERNAL_NODE_MAX_CELLS = 3"

subsection \<open>Bytes in a page\<close>

text \<open>
  Writers take the offset that is read as their last argument, so that a page that was
  written many times is a stack of pending writes which is only searched where it is read.
\<close>

definition byte_of :: "u32 \<Rightarrow> nat \<Rightarrow> u8" where
  "byte_of v i = ucast (drop_bit (8 * i) v)"

definition read8 :: "page \<Rightarrow> nat \<Rightarrow> u8" where
  "read8 node a = node a"

definition write8 :: "nat \<Rightarrow> u8 \<Rightarrow> page \<Rightarrow> page" where
  "write8 a v node x = (if x = a then v else node x)"

definition read32 :: "page \<Rightarrow> nat \<Rightarrow> u32" where
  "read32 node a =
     ucast (node a) OR push_bit 8 (ucast (node (a + 1))) OR
     push_bit 16 (ucast (node (a + 2))) OR push_bit 24 (ucast (node (a + 3)))"

definition write32 :: "nat \<Rightarrow> u32 \<Rightarrow> page \<Rightarrow> page" where
  "write32 a v node x = (if a \<le> x \<and> x < a + 4 then byte_of v (x - a) else node x)"

text \<open>
  \<^verbatim>\<open>memcpy\<close>/\<^verbatim>\<open>memmove\<close> of \<open>n\<close> bytes from offset \<open>s\<close> of page \<open>src\<close> to offset \<open>d\<close> of page
  \<open>dst\<close>; \<open>src\<close> is the source page as it was before the call, which is what \<^verbatim>\<open>memmove\<close>
  guarantees for overlapping ranges.
\<close>

definition memmove :: "page \<Rightarrow> nat \<Rightarrow> page \<Rightarrow> nat \<Rightarrow> nat \<Rightarrow> page" where
  "memmove dst d src s n x = (if d \<le> x \<and> x < d + n then src (s + (x - d)) else dst x)"

definition load_bytes :: "page \<Rightarrow> nat \<Rightarrow> nat \<Rightarrow> u8 list" where
  "load_bytes node a n = map node [a..<a + n]"

text \<open>The C string held by a character array: the bytes before the first NUL.\<close>

definition cstring :: "u8 list \<Rightarrow> u8 list" where
  "cstring s = takeWhile (\<lambda>c. c \<noteq> 0) s"

text \<open>
  \<^verbatim>\<open>strncpy(dest, src, n)\<close>: the bytes of the source string, at most \<open>n\<close> of them, and NUL
  bytes up to \<open>n\<close>.
\<close>

definition strncpy :: "nat \<Rightarrow> u8 list \<Rightarrow> nat \<Rightarrow> page \<Rightarrow> page" where
  "strncpy d src n node x =
     (if d \<le> x \<and> x < d + n
      then (if x - d < length (cstring (take n src)) then src ! (x - d) else 0)
      else node x)"

subsection \<open>Node codec: the offset of each field\<close>

definition leaf_node_num_cells :: nat where
  "leaf_node_num_cells = unat LEAF_NODE_NUM_CELLS_OFFSET"

definition leaf_node_cell :: "u32 \<Rightarrow> nat" where
  "leaf_node_cell cell_num = unat LEAF_NODE_HEADER_SIZE + unat (cell_num * LEAF_NODE_CELL_SIZE)"

definition leaf_node_key :: "u32 \<Rightarrow> nat" where
  "leaf_node_key cell_num = leaf_node_cell cell_num"

definition leaf_node_value :: "u32 \<Rightarrow> nat" where
  "leaf_node_value cell_num = leaf_node_cell cell_num + unat LEAF_NODE_KEY_SIZE"

definition leaf_node_next_leaf :: nat where
  "leaf_node_next_leaf = unat LEAF_NODE_NEXT_LEAF_OFFSET"

definition get_node_type :: "page \<Rightarrow> u8" where
  "get_node_type node = read8 node (unat NODE_TYPE_OFFSET)"

definition set_node_type :: "u8 \<Rightarrow> page \<Rightarrow> page" where
  "set_node_type ty node = write8 (unat NODE_TYPE_OFFSET) ty node"

definition internal_node_num_keys :: nat where
  "internal_node_num_keys = unat INTERNAL_NODE_NUM_KEYS_OFFSET"

definition internal_node_right_child :: nat where
  "internal_node_right_child = unat INTERNAL_NODE_RIGHT_CHILD_OFFSET"

definition internal_node_cell :: "u32 \<Rightarrow> nat" where
  "internal_node_cell cell_num =
     unat INTERNAL_NODE_HEADER_SIZE + unat (cell_num * INTERNAL_NODE_CELL_SIZE)"

definition internal_node_key :: "u32 \<Rightarrow> nat" where
  "internal_node_key key_num = internal_node_cell key_num + unat INTERNAL_NODE_CHILD_SIZE"

definition is_node_root :: "page \<Rightarrow> bool" where
  "is_node_root node = (read8 node (unat IS_ROOT_OFFSET) \<noteq> 0)"

definition set_node_root :: "bool \<Rightarrow> page \<Rightarrow> page" where
  "set_node_root is_root node = write8 (unat IS_ROOT_OFFSET) (if is_root then 1 else 0) node"

definition node_parent :: nat where
  "node_parent = unat PARENT_POINTER_OFFSET"

subsection \<open>Ways in which the process stops\<close>

datatype fault =
    Unable_To_Open
  | Corrupt_File
  | Page_Out_Of_Bounds u32
  | Page_Slot_Overrun
  | Read_Failed
  | Child_Num_Too_Big u32 u32
  | Invalid_Right_Child
  | Invalid_Child u32
  | Assertion_Failed
  | No_Return_Value
  | Out_Of_Fuel

text \<open>
  \<open>Page_Out_Of_Bounds\<close> is the \<^verbatim>\<open>exit\<close> of \<^verbatim>\<open>get_page\<close>; \<open>Child_Num_Too_Big\<close>,
  \<open>Invalid_Right_Child\<close> and \<open>Invalid_Child\<close> are the three of \<^verbatim>\<open>internal_node_child\<close>;
  \<open>Assertion_Failed\<close> is a failed \<^verbatim>\<open>assert\<close>.  Two values are not exits of the source:
  \<open>Page_Slot_Overrun\<close> marks the access to \<^verbatim>\<open>pages[100]\<close>, one slot past the array, which
  the bounds check lets through and C leaves undefined; \<open>No_Return_Value\<close> marks the end of
  \<^verbatim>\<open>internal_node_find\<close> reached without a \<^verbatim>\<open>return\<close> (a node type byte that is neither
  enumerator).  \<open>Out_Of_Fuel\<close> is the model's value for a loop or recursion that did not
  finish within the given number of steps.
\<close>

text \<open>
  Sequencing: \<open>bind_f m f\<close> runs \<open>m\<close> and, unless it stopped the process, continues with
  \<open>f\<close> on its result.
\<close>

definition bind_f :: "fault + 'a \<Rightarrow> ('a \<Rightarrow> fault + 'b) \<Rightarrow> fault + 'b" where
  "bind_f m f = (case m of Inl e \<Rightarrow> Inl e | Inr x \<Rightarrow> f x)"

definition internal_node_child :: "page \<Rightarrow> u32 \<Rightarrow> fault + nat" where
  "internal_node_child node child_num =
     (let num_keys = read32 node internal_node_num_keys in
      if child_num > num_keys then Inl (Child_Num_Too_Big child_num num_keys)
      else if child_num = num_keys then
        (if read32 node internal_node_right_child = INVALID_PAGE_NUM then Inl Invalid_Right_Child
         else Inr internal_node_right_child)
      else
        (if read32 node (internal_node_cell child_num) = INVALID_PAGE_NUM
         then Inl (Invalid_Child child_num)
         else Inr (internal_node_cell child_num)))"

subsection \<open>Pager\<close>

text \<open>
  \<open>pages\<close> is the slot array, \<open>None\<close> for \<^verbatim>\<open>NULL\<close>.  The file descriptor is represented by
  what the host does with it: \<open>malloc_page n\<close> is the content of the buffer that \<^verbatim>\<open>malloc\<close>
  returns for slot \<open>n\<close>, and \<open>read_page n b\<close> is the buffer after \<^verbatim>\<open>lseek\<close> and \<^verbatim>\<open>read\<close> of
  page \<open>n\<close> into \<open>b\<close>, or \<open>None\<close> when \<^verbatim>\<open>read\<close> returns -1.
\<close>

record Pager =
  file_length :: u32
  num_pages :: u32
  pages :: "u32 \<Rightarrow> page option"
  malloc_page :: "u32 \<Rightarrow> page"
  read_page :: "u32 \<Rightarrow> page \<Rightarrow> page option"

record Table =
  root_page_num :: u32
  pager :: Pager

record Cursor =
  page_num :: u32
  cell_num :: u32
  end_of_table :: bool

text \<open>The page a node pointer points to, and a write through such a pointer.\<close>

definition node_at :: "Pager \<Rightarrow> u32 \<Rightarrow> page" where
  "node_at pgr n = the (pages pgr n)"

definition node_update :: "u32 \<Rightarrow> (page \<Rightarrow> page) \<Rightarrow> Pager \<Rightarrow> Pager" where
  "node_update n f pgr = pgr\<lparr>pages := (pages pgr)(n := map_option f (pages pgr n))\<rparr>"

definition get_page :: "Pager \<Rightarrow> u32 \<Rightarrow> fault + Pager" where
  "get_page pgr n =
     (if n > TABLE_MAX_PAGES then Inl (Page_Out_Of_Bounds n)
      else if n = TABLE_MAX_PAGES then Inl Page_Slot_Overrun
      else
        (case pages pgr n of
           Some p \<Rightarrow> Inr pgr
         | None \<Rightarrow>
            (let fresh = malloc_page pgr n;
                 file_pages = file_length pgr div PAGE_SIZE +
                              (if file_length pgr mod PAGE_SIZE \<noteq> 0 then 1 else 0)
             in case (if n \<le> file_pages then read_page pgr n fresh else Some fresh) of
                  None \<Rightarrow> Inl Read_Failed
                | Some p \<Rightarrow>
                    Inr (pgr\<lparr>pages := (pages pgr)(n := Some p),
                             num_pages := (if n \<ge> num_pages pgr then n + 1 else num_pages pgr)\<rparr>))))"

definition get_unused_page_num :: "Pager \<Rightarrow> u32 \<times> Pager" where
  "get_unused_page_num pgr = (num_pages pgr, pgr\<lparr>num_pages := num_pages pgr + 1\<rparr>)"

subsection \<open>Lookup\<close>

text \<open>
  Loops and recursions whose number of steps depends on the page contents take a bound
  on that number as their first argument (\<open>fuel\<close>).
\<close>

fun get_node_max_key :: "nat \<Rightarrow> Pager \<Rightarrow> u32 \<Rightarrow> fault + (u32 \<times> Pager)" where
  "get_node_max_key 0 pgr node = Inl Out_Of_Fuel"
| "get_node_max_key (Suc fuel) pgr node =
     (if get_node_type (node_at pgr node) = NODE_LEAF then
        (let num_cells = read32 (node_at pgr node) leaf_node_num_cells in
         if num_cells = 0 then Inr (0, pgr)
         else Inr (read32 (node_at pgr node) (leaf_node_key (num_cells - 1)), pgr))
      else
        (let right_child = read32 (node_at pgr node) internal_node_right_child in
         case get_page pgr right_child of
           Inl e \<Rightarrow> Inl e
         | Inr pgr1 \<Rightarrow> get_node_max_key fuel pgr1 right_child))"

text \<open>The binary search of \<^verbatim>\<open>leaf_node_find\<close>; the result is the cursor's cell number.\<close>

fun leaf_node_find_loop :: "nat \<Rightarrow> page \<Rightarrow> u32 \<Rightarrow> u32 \<Rightarrow> u32 \<Rightarrow> fault + u32" where
  "leaf_node_find_loop 0 node key min_i max_i = Inl Out_Of_Fuel"
| "leaf_node_find_loop (Suc fuel) node key min_i max_i =
     (if max_i \<noteq> min_i then
        (let index = (min_i + max_i) div 2;
             key_at_index = read32 node (leaf_node_key index)
         in if key = key_at_index then Inr index
            else if key < key_at_index then leaf_node_find_loop fuel node key min_i index
            else leaf_node_find_loop fuel node key (index + 1) max_i)
      else Inr min_i)"

text \<open>
  \<^verbatim>\<open>leaf_node_find\<close> allocates the cursor and writes its table, page and cell; the
  \<^verbatim>\<open>end_of_table\<close> byte of the fresh cursor is not written here (the model puts \<open>False\<close>),
  \<^verbatim>\<open>table_start\<close> sets it and \<^verbatim>\<open>execute_insert\<close> never reads it.
\<close>

definition leaf_node_find :: "nat \<Rightarrow> Table \<Rightarrow> u32 \<Rightarrow> u32 \<Rightarrow> fault + (Cursor \<times> Table)" where
  "leaf_node_find fuel table pn key =
     (case get_page (pager table) pn of
        Inl e \<Rightarrow> Inl e
      | Inr pgr1 \<Rightarrow>
         (let node = node_at pgr1 pn;
              num_cells = read32 node leaf_node_num_cells
          in case leaf_node_find_loop fuel node key 0 num_cells of
               Inl e \<Rightarrow> Inl e
             | Inr cn \<Rightarrow>
                 Inr (\<lparr>page_num = pn, cell_num = cn, end_of_table = False\<rparr>,
                      table\<lparr>pager := pgr1\<rparr>)))"

fun internal_node_find_child_loop :: "nat \<Rightarrow> page \<Rightarrow> u32 \<Rightarrow> u32 \<Rightarrow> u32 \<Rightarrow> fault + u32" where
  "internal_node_find_child_loop 0 node key min_i max_i = Inl Out_Of_Fuel"
| "internal_node_find_child_loop (Suc fuel) node key min_i max_i =
     (if min_i \<noteq> max_i then
        (let mid = (min_i + max_i) div 2;
             key_to_right = read32 node (internal_node_key mid)
         in if key_to_right \<ge> key then internal_node_find_child_loop fuel node key min_i mid
            else internal_node_find_child_loop fuel node key (mid + 1) max_i)
      else Inr min_i)"

definition internal_node_find_child :: "nat \<Rightarrow> page \<Rightarrow> u32 \<Rightarrow> fault + u32" where
  "internal_node_find_child fuel node key =
     (let num_keys = read32 node internal_node_num_keys
      in internal_node_find_child_loop fuel node key 0 num_keys)"

fun internal_node_find :: "nat \<Rightarrow> Table \<Rightarrow> u32 \<Rightarrow> u32 \<Rightarrow> fault + (Cursor \<times> Table)" where
  "internal_node_find 0 table pn key = Inl Out_Of_Fuel"
| "internal_node_find (Suc fuel) table pn key =
     (case get_page (pager table) pn of
        Inl e \<Rightarrow> Inl e
      | Inr pgr1 \<Rightarrow>
         (case internal_node_find_child fuel (node_at pgr1 pn) key of
            Inl e \<Rightarrow> Inl e
          | Inr child_index \<Rightarrow>
             (case internal_node_child (node_at pgr1 pn) child_index of
                Inl e \<Rightarrow> Inl e
              | Inr child_slot \<Rightarrow>
                 (let child_num = read32 (node_at pgr1 pn) child_slot in
                  case get_page pgr1 child_num of
                    Inl e \<Rightarrow> Inl e
                  | Inr pgr2 \<Rightarrow>
                     (if get_node_type (node_at pgr2 child_num) = NODE_INTERNAL
                      then internal_node_find fuel (table\<lparr>pager := pgr2\<rparr>) child_num key
                      else if get_node_type (node_at pgr2 child_num) = NODE_LEAF
                      then leaf_node_find fuel (table\<lparr>pager := pgr2\<rparr>) child_num key
                      else Inl No_Return_Value)))))"

definition update_internal_node_key :: "nat \<Rightarrow> Pager \<Rightarrow> u32 \<Rightarrow> u32 \<Rightarrow> u32 \<Rightarrow> fault + Pager" where
  "update_internal_node_key fuel pgr node old_key new_key =
     (case internal_node_find_child fuel (node_at pgr node) old_key of
        Inl e \<Rightarrow> Inl e
      | Inr old_child_index \<Rightarrow>
          Inr (node_update node (write32 (internal_node_key old_child_index) new_key) pgr))"

definition init_internal_node :: "page \<Rightarrow> page" where
  "init_internal_node node =
     write32 internal_node_right_child INVALID_PAGE_NUM
       (write32 internal_node_num_keys 0
         (set_node_root False
           (set_node_type NODE_INTERNAL node)))"

definition init_leaf_node :: "page \<Rightarrow> page" where
  "init_leaf_node node =
     write32 leaf_node_next_leaf INVALID_PAGE_NUM
       (write32 leaf_node_num_cells 0
         (set_node_root False
           (set_node_type NODE_LEAF node)))"

subsection \<open>Rows\<close>

text \<open>\<open>dest\<close> and \<open>source\<close> are offsets into the page that holds the cell.\<close>

definition serialize_row :: "Row \<Rightarrow> nat \<Rightarrow> page \<Rightarrow> page" where
  "serialize_row r dest node =
     strncpy (dest + unat EMAIL_OFFSET) (email r) (unat EMAIL_SIZE)
       (strncpy (dest + unat USERNAME_OFFSET) (username r) (unat USERNAME_SIZE)
         (write32 (dest + unat ID_OFFSET) (id_field r) node))"

definition deserialize_row :: "page \<Rightarrow> nat \<Rightarrow> Row" where
  "deserialize_row node source =
     \<lparr>id_field = read32 node (source + unat ID_OFFSET),
      username = load_bytes node (source + unat USERNAME_OFFSET) (unat USERNAME_SIZE),
      email = load_bytes node (source + unat EMAIL_OFFSET) (unat EMAIL_SIZE)\<rparr>"

subsection \<open>Cursors\<close>

definition table_find :: "nat \<Rightarrow> Table \<Rightarrow> u32 \<Rightarrow> fault + (Cursor \<times> Table)" where
  "table_find fuel table key =
     (case get_page (pager table) (root_page_num table) of
        Inl e \<Rightarrow> Inl e
      | Inr pgr1 \<Rightarrow>
         (if get_node_type (node_at pgr1 (root_page_num table)) = NODE_LEAF
          then leaf_node_find fuel (table\<lparr>pager := pgr1\<rparr>) (root_page_num table) key
          else internal_node_find fuel (table\<lparr>pager := pgr1\<rparr>) (root_page_num table) key))"

definition table_start :: "nat \<Rightarrow> Table \<Rightarrow> fault + (Cursor \<times> Table)" where
  "table_start fuel table =
     (case table_find fuel table 0 of
        Inl e \<Rightarrow> Inl e
      | Inr (cursor, table1) \<Rightarrow>
         (case get_page (pager table1) (page_num cursor) of
            Inl e \<Rightarrow> Inl e
          | Inr pgr2 \<Rightarrow>
             (let num_cells = read32 (node_at pgr2 (page_num cursor)) leaf_node_num_cells
              in Inr (cursor\<lparr>end_of_table := (num_cells = 0)\<rparr>, table1\<lparr>pager := pgr2\<rparr>))))"

text \<open>\<^verbatim>\<open>cursor_value\<close>: the page and the offset in it that the returned pointer denotes.\<close>

definition cursor_value :: "Table \<Rightarrow> Cursor \<Rightarrow> fault + ((u32 \<times> nat) \<times> Table)" where
  "cursor_value table cursor =
     (case get_page (pager table) (page_num cursor) of
        Inl e \<Rightarrow> Inl e
      | Inr pgr1 \<Rightarrow>
          Inr ((page_num cursor, leaf_node_value (cell_num cursor)), table\<lparr>pager := pgr1\<rparr>))"

definition cursor_advance :: "Table \<Rightarrow> Cursor \<Rightarrow> fault + (Cursor \<times> Table)" where
  "cursor_advance table cursor =
     (case get_page (pager table) (page_num cursor) of
        Inl e \<Rightarrow> Inl e
      | Inr pgr1 \<Rightarrow>
         (let node = node_at pgr1 (page_num cursor);
              cursor1 = cursor\<lparr>cell_num := cell_num cursor + 1\<rparr>
          in if cell_num cursor1 \<ge> read32 node leaf_node_num_cells then
               (let next_page_num = read32 node leaf_node_next_leaf in
                if next_page_num = 0
                then Inr (cursor1\<lparr>end_of_table := True\<rparr>, table\<lparr>pager := pgr1\<rparr>)
                else Inr (cursor1\<lparr>page_num := next_page_num, cell_num := 0\<rparr>,
                          table\<lparr>pager := pgr1\<rparr>))
             else Inr (cursor1, table\<lparr>pager := pgr1\<rparr>)))"

subsection \<open>Opening the database\<close>

text \<open>
  The host side of \<^verbatim>\<open>pager_open\<close>: whether \<^verbatim>\<open>open\<close> succeeds, the file length that
  \<^verbatim>\<open>lseek\<close> reports, and the two host functions kept in the pager.
\<close>

record Host =
  open_ok :: bool
  host_file_length :: int
  host_malloc_page :: "u32 \<Rightarrow> page"
  host_read_page :: "u32 \<Rightarrow> page \<Rightarrow> page option"

definition pager_open :: "Host \<Rightarrow> fault + Pager" where
  "pager_open host =
     (if \<not> open_ok host then Inl Unable_To_Open
      else if host_file_length host mod uint PAGE_SIZE \<noteq> 0 then Inl Corrupt_File
      else Inr \<lparr>file_length = word_of_int (host_file_length host),
                num_pages = word_of_int (host_file_length host div uint PAGE_SIZE),
                pages = (\<lambda>i. None),
                malloc_page = host_malloc_page host,
                read_page = host_read_page host\<rparr>)"

definition db_open :: "Host \<Rightarrow> fault + Table" where
  "db_open host =
     (case pager_open host of
        Inl e \<Rightarrow> Inl e
      | Inr pgr \<Rightarrow>
         (if num_pages pgr = 0 then
            (case get_page pgr 0 of
               Inl e \<Rightarrow> Inl e
             | Inr pgr1 \<Rightarrow>
                 Inr \<lparr>root_page_num = 0,
                      pager = node_update 0 (\<lambda>root_node. set_node_root True (init_leaf_node root_node)) pgr1\<rparr>)
          else Inr \<lparr>root_page_num = 0, pager = pgr\<rparr>))"

subsection \<open>Creating a new root\<close>

text \<open>The loop of \<^verbatim>\<open>create_new_root\<close> that re-parents the children of the copied root.\<close>

fun create_new_root_reparent :: "nat \<Rightarrow> u32 \<Rightarrow> u32 \<Rightarrow> Pager \<Rightarrow> fault + Pager" where
  "create_new_root_reparent 0 i left_child_page_num pgr = Inl Out_Of_Fuel"
| "create_new_root_reparent (Suc fuel) i left_child_page_num pgr =
     (if i < read32 (node_at pgr left_child_page_num) internal_node_num_keys then
        case internal_node_child (node_at pgr left_child_page_num) i of Inl e \<Rightarrow> Inl e
        | Inr slot \<Rightarrow>
        let child = read32 (node_at pgr left_child_page_num) slot in
        case get_page pgr child of Inl e \<Rightarrow> Inl e
        | Inr pgr1 \<Rightarrow>
        create_new_root_reparent fuel (i + 1) left_child_page_num
          (node_update child (write32 node_parent left_child_page_num) pgr1)
      else Inr pgr)"

definition create_new_root :: "nat \<Rightarrow> Table \<Rightarrow> u32 \<Rightarrow> fault + Table" where
  "create_new_root fuel table right_child_page_num =
     (let root = root_page_num table in
      case get_page (pager table) root of Inl e \<Rightarrow> Inl e
      | Inr pgr1 \<Rightarrow>
      case get_page pgr1 right_child_page_num of Inl e \<Rightarrow> Inl e
      | Inr pgr2 \<Rightarrow>
      let (left_child_page_num, pgr3) = get_unused_page_num pgr2 in
      case get_page pgr3 left_child_page_num of Inl e \<Rightarrow> Inl e
      | Inr pgr4 \<Rightarrow>
      let pgr5 = (if get_node_type (node_at pgr4 root) = NODE_INTERNAL
                  then node_update left_child_page_num init_internal_node
                         (node_update right_child_page_num init_internal_node pgr4)
                  else pgr4);
          pgr6 = node_update left_child_page_num
                   (\<lambda>left_child. memmove left_child 0 (node_at pgr5 root) 0 (unat PAGE_SIZE)) pgr5;
          pgr7 = node_update left_child_page_num (set_node_root False) pgr6
      in
      case (if get_node_type (node_at pgr7 left_child_page_num) = NODE_INTERNAL
            then create_new_root_reparent fuel 0 left_child_page_num pgr7
            else Inr pgr7) of Inl e \<Rightarrow> Inl e
      | Inr pgr8 \<Rightarrow>
      let pgr9 = node_update root
                   (\<lambda>node. write32 internal_node_num_keys 1
                              (set_node_root True (init_internal_node node))) pgr8
      in
      case internal_node_child (node_at pgr9 root) 0 of Inl e \<Rightarrow> Inl e
      | Inr slot \<Rightarrow>
      let pgr10 = node_update root (write32 slot left_child_page_num) pgr9 in
      case get_node_max_key fuel pgr10 left_child_page_num of Inl e \<Rightarrow> Inl e
      | Inr (left_child_max_key, pgr11) \<Rightarrow>
      let pgr12 = node_update root (write32 (internal_node_key 0) left_child_max_key) pgr11;
          pgr13 = node_update root (write32 internal_node_right_child right_child_page_num) pgr12;
          pgr14 = node_update left_child_page_num (write32 node_parent root) pgr13;
          pgr15 = node_update right_child_page_num (write32 node_parent root) pgr14
      in Inr (table\<lparr>pager := pgr15\<rparr>))"

subsection \<open>Insertion into internal nodes\<close>

text \<open>
  The cell shift of \<^verbatim>\<open>internal_node_insert\<close>: for \<open>i\<close> from \<open>original_num_keys\<close> down to
  \<open>index + 1\<close>, cell \<open>i - 1\<close> is copied to cell \<open>i\<close>.
\<close>

definition internal_node_shift_cells :: "u32 \<Rightarrow> u32 \<Rightarrow> page \<Rightarrow> page" where
  "internal_node_shift_cells original_num_keys index node =
     fold (\<lambda>i parent. memmove parent (internal_node_cell (of_nat i))
                                parent (internal_node_cell (of_nat i - 1))
                                (unat INTERNAL_NODE_CELL_SIZE))
          (rev [unat index + 1 ..< unat original_num_keys + 1]) node"

text \<open>
  The part of \<^verbatim>\<open>internal_node_insert\<close> after the test for a full parent, for a parent
  that has a right child.
\<close>

definition internal_node_insert_cell ::
  "nat \<Rightarrow> Pager \<Rightarrow> u32 \<Rightarrow> u32 \<Rightarrow> u32 \<Rightarrow> u32 \<Rightarrow> u32 \<Rightarrow> u32 \<Rightarrow> fault + Pager" where
  "internal_node_insert_cell fuel pgr parent_page_num child_page_num child_max_key index
       original_num_keys right_child_page_num =
     (case get_page pgr right_child_page_num of Inl e \<Rightarrow> Inl e
      | Inr pgr1 \<Rightarrow>
      let pgr2 = node_update parent_page_num
                   (write32 internal_node_num_keys (original_num_keys + 1)) pgr1 in
      case get_node_max_key fuel pgr2 right_child_page_num of Inl e \<Rightarrow> Inl e
      | Inr (right_max, pgr3) \<Rightarrow>
      if child_max_key > right_max then
        case internal_node_child (node_at pgr3 parent_page_num) original_num_keys of
          Inl e \<Rightarrow> Inl e
        | Inr slot \<Rightarrow>
        let pgr4 = node_update parent_page_num (write32 slot right_child_page_num) pgr3 in
        case get_node_max_key fuel pgr4 right_child_page_num of Inl e \<Rightarrow> Inl e
        | Inr (right_max1, pgr5) \<Rightarrow>
        let pgr6 = node_update parent_page_num
                     (write32 (internal_node_key original_num_keys) right_max1) pgr5;
            pgr7 = node_update parent_page_num
                     (write32 internal_node_right_child child_page_num) pgr6;
            pgr8 = node_update child_page_num (write32 node_parent parent_page_num) pgr7;
            pgr9 = node_update right_child_page_num (write32 node_parent parent_page_num) pgr8
        in Inr pgr9
      else
        let pgr4 = node_update parent_page_num
                     (internal_node_shift_cells original_num_keys index) pgr3 in
        case internal_node_child (node_at pgr4 parent_page_num) index of Inl e \<Rightarrow> Inl e
        | Inr slot \<Rightarrow>
        let pgr5 = node_update parent_page_num (write32 slot child_page_num) pgr4;
            pgr6 = node_update parent_page_num
                     (write32 (internal_node_key index) child_max_key) pgr5;
            pgr7 = node_update child_page_num (write32 node_parent parent_page_num) pgr6
        in Inr pgr7)"

text \<open>
  \<^verbatim>\<open>internal_node_insert\<close> and \<^verbatim>\<open>internal_node_split_and_insert\<close> call each other.  In
  the second, \<open>parent\<close>, \<open>old_page_num\<close> and \<open>new_page_num\<close> stand for the pointers
  \<^verbatim>\<open>parent\<close>, \<^verbatim>\<open>old_node\<close> and \<^verbatim>\<open>new_node\<close>; the \<^verbatim>\<open>for\<close> loop runs over the indices from
  \<^verbatim>\<open>INTERNAL_NODE_MAX_CELLS - 1\<close> down to \<^verbatim>\<open>INTERNAL_NODE_MAX_CELLS / 2 + 1\<close>.
\<close>

fun internal_node_insert :: "nat \<Rightarrow> Table \<Rightarrow> u32 \<Rightarrow> u32 \<Rightarrow> fault + Table"
  and internal_node_split_and_insert :: "nat \<Rightarrow> Table \<Rightarrow> u32 \<Rightarrow> u32 \<Rightarrow> fault + Table"
where
  "internal_node_insert 0 table parent_page_num child_page_num = Inl Out_Of_Fuel"
| "internal_node_insert (Suc fuel) table parent_page_num child_page_num =
     bind_f (get_page (pager table) parent_page_num) (\<lambda>pgr1.
     bind_f (get_page pgr1 child_page_num) (\<lambda>pgr2.
     bind_f (get_node_max_key fuel pgr2 child_page_num) (\<lambda>(child_max_key, pgr3).
     bind_f (internal_node_find_child fuel (node_at pgr3 parent_page_num) child_max_key) (\<lambda>index.
     let original_num_keys = read32 (node_at pgr3 parent_page_num) internal_node_num_keys in
     if original_num_keys \<ge> INTERNAL_NODE_MAX_CELLS then
       internal_node_split_and_insert fuel (table\<lparr>pager := pgr3\<rparr>) parent_page_num child_page_num
     else
       let right_child_page_num = read32 (node_at pgr3 parent_page_num) internal_node_right_child in
       if right_child_page_num = INVALID_PAGE_NUM then
         Inr (table\<lparr>pager :=
                node_update child_page_num (write32 node_parent parent_page_num)
                  (node_update parent_page_num
                     (write32 internal_node_right_child child_page_num) pgr3)\<rparr>)
       else
         bind_f (internal_node_insert_cell fuel pgr3 parent_page_num child_page_num child_max_key
                   index original_num_keys right_child_page_num) (\<lambda>pgr4.
         Inr (table\<lparr>pager := pgr4\<rparr>))))))"
| "internal_node_split_and_insert 0 table parent_page_num child_page_num = Inl Out_Of_Fuel"
| "internal_node_split_and_insert (Suc fuel) table parent_page_num child_page_num =
     bind_f (get_page (pager table) parent_page_num) (\<lambda>pgr1.
     bind_f (get_node_max_key fuel pgr1 parent_page_num) (\<lambda>(old_max, pgr2).
     bind_f (get_page pgr2 child_page_num) (\<lambda>pgr3.
     bind_f (get_node_max_key fuel pgr3 child_page_num) (\<lambda>(child_max, pgr4).
     let (new_page_num, pgr5) = get_unused_page_num pgr4;
         splitting_root = is_node_root (node_at pgr5 parent_page_num)
     in
     bind_f
       (if splitting_root then
          bind_f (create_new_root fuel (table\<lparr>pager := pgr5\<rparr>) new_page_num) (\<lambda>table1.
          bind_f (get_page (pager table1) (root_page_num table1)) (\<lambda>pgr6.
          bind_f (internal_node_child (node_at pgr6 (root_page_num table1)) 0) (\<lambda>slot.
          let old_page_num = read32 (node_at pgr6 (root_page_num table1)) slot in
          bind_f (get_page pgr6 old_page_num) (\<lambda>pgr7.
          Inr (root_page_num table1, old_page_num, pgr7)))))
        else
          let parent = read32 (node_at pgr5 parent_page_num) node_parent in
          bind_f (get_page pgr5 parent) (\<lambda>pgr6.
          bind_f (get_page pgr6 new_page_num) (\<lambda>pgr7.
          Inr (parent, parent_page_num, node_update new_page_num init_internal_node pgr7))))
       (\<lambda>(parent, old_page_num, pgr8).
     let cur_page_num = read32 (node_at pgr8 old_page_num) internal_node_right_child in
     bind_f (get_page pgr8 cur_page_num) (\<lambda>pgr9.
     bind_f (internal_node_insert fuel (table\<lparr>pager := pgr9\<rparr>) new_page_num cur_page_num) (\<lambda>table2.
     let pgr10 = node_update old_page_num (write32 internal_node_right_child INVALID_PAGE_NUM)
                   (node_update cur_page_num (write32 node_parent new_page_num) (pager table2))
     in
     bind_f
       (fold
          (\<lambda>i acc.
             bind_f acc (\<lambda>tbl.
             bind_f (internal_node_child (node_at (pager tbl) old_page_num) (of_nat i)) (\<lambda>slot.
             let cur_page_num = read32 (node_at (pager tbl) old_page_num) slot in
             bind_f (get_page (pager tbl) cur_page_num) (\<lambda>pgr.
             bind_f (internal_node_insert fuel (tbl\<lparr>pager := pgr\<rparr>) new_page_num cur_page_num) (\<lambda>tbl1.
             Inr (tbl1\<lparr>pager :=
                    node_update old_page_num
                      (\<lambda>node. write32 internal_node_num_keys
                                 (read32 node internal_node_num_keys - 1) node)
                      (node_update cur_page_num (write32 node_parent new_page_num)
                         (pager tbl1))\<rparr>))))))
          (rev [unat (INTERNAL_NODE_MAX_CELLS div 2) + 1 ..< unat INTERNAL_NODE_MAX_CELLS])
          (Inr (table2\<lparr>pager := pgr10\<rparr>)))
       (\<lambda>table3.
     let old_node = node_at (pager table3) old_page_num in
     bind_f (internal_node_child old_node (read32 old_node internal_node_num_keys - 1)) (\<lambda>slot.
     let pgr12 = node_update old_page_num
                   (\<lambda>node. write32 internal_node_right_child (read32 node slot) node)
                   (pager table3);
         pgr13 = node_update old_page_num
                   (\<lambda>node. write32 internal_node_num_keys
                              (read32 node internal_node_num_keys - 1) node) pgr12
     in
     bind_f (get_node_max_key fuel pgr13 old_page_num) (\<lambda>(max_after_split, pgr14).
     let destination_page_num = (if child_max < max_after_split then old_page_num
                                 else new_page_num) in
     bind_f (internal_node_insert fuel (table3\<lparr>pager := pgr14\<rparr>) destination_page_num
               child_page_num) (\<lambda>table4.
     let pgr15 = node_update child_page_num (write32 node_parent destination_page_num)
                   (pager table4) in
     bind_f (get_node_max_key fuel pgr15 old_page_num) (\<lambda>(old_new_max, pgr16).
     bind_f (update_internal_node_key fuel pgr16 parent old_max old_new_max) (\<lambda>pgr17.
     if \<not> splitting_root then
       bind_f (internal_node_insert fuel (table4\<lparr>pager := pgr17\<rparr>)
                 (read32 (node_at pgr17 old_page_num) node_parent) new_page_num) (\<lambda>table5.
       Inr (table5\<lparr>pager :=
              node_update new_page_num
                (write32 node_parent (read32 (node_at (pager table5) old_page_num) node_parent))
                (pager table5)\<rparr>))
     else Inr (table4\<lparr>pager := pgr17\<rparr>))))))))))))))"

subsection \<open>Insertion into leaves\<close>

text \<open>
  One iteration of the redistribution loop of \<^verbatim>\<open>leaf_node_split_and_insert\<close>, for the
  loop index \<open>i\<close>; \<open>old\<close> and \<open>new\<close> stand for the two node pointers.
\<close>

definition leaf_node_split_step ::
  "Cursor \<Rightarrow> u32 \<Rightarrow> Row \<Rightarrow> u32 \<Rightarrow> u32 \<Rightarrow> nat \<Rightarrow> Pager \<Rightarrow> Pager" where
  "leaf_node_split_step cursor key val old new i pgr =
     (let dest_node = (if (of_nat i :: u32) \<ge> LEAF_NODE_LEFT_SPLIT_COUNT then new else old);
          index_within_node = (of_nat i :: u32) mod LEAF_NODE_LEFT_SPLIT_COUNT;
          dest = leaf_node_cell index_within_node
      in
      if of_nat i = cell_num cursor then
        node_update dest_node (write32 (leaf_node_key index_within_node) key)
          (node_update dest_node (serialize_row val (leaf_node_value index_within_node)) pgr)
      else if of_nat i > cell_num cursor then
        node_update dest_node
          (\<lambda>d. memmove d dest (node_at pgr old) (leaf_node_cell (of_nat i - 1))
                 (unat LEAF_NODE_CELL_SIZE)) pgr
      else
        node_update dest_node
          (\<lambda>d. memmove d dest (node_at pgr old) (leaf_node_cell (of_nat i))
                 (unat LEAF_NODE_CELL_SIZE)) pgr)"

text \<open>
  \<^verbatim>\<open>leaf_node_split_and_insert\<close> up to and including the update of the two cell counts:
  the new leaf is allocated and linked into the leaf chain and the cells are
  redistributed, for \<open>i\<close> from \<^verbatim>\<open>LEAF_NODE_MAX_CELLS\<close> down to 0.  The result is the number
  of the new page, \<^verbatim>\<open>old_max\<close> and the pager.
\<close>

definition leaf_node_split_cells ::
  "nat \<Rightarrow> Table \<Rightarrow> Cursor \<Rightarrow> u32 \<Rightarrow> Row \<Rightarrow> fault + (u32 \<times> u32 \<times> Pager)" where
  "leaf_node_split_cells fuel table cursor key val =
     bind_f (get_page (pager table) (page_num cursor)) (\<lambda>pgr1.
     let old = page_num cursor;
         old_num_cells = read32 (node_at pgr1 old) leaf_node_num_cells
     in
     bind_f (get_node_max_key fuel pgr1 old) (\<lambda>(old_max, pgr2).
     let (new_page_num, pgr3) = get_unused_page_num pgr2 in
     if old_num_cells \<noteq> LEAF_NODE_MAX_CELLS then Inl Assertion_Failed
     else if \<not> cell_num cursor \<le> old_num_cells then Inl Assertion_Failed
     else
       bind_f (get_page pgr3 new_page_num) (\<lambda>pgr4.
       let pgr5 = node_update new_page_num init_leaf_node pgr4;
           pgr6 = node_update new_page_num
                    (write32 node_parent (read32 (node_at pgr5 old) node_parent)) pgr5;
           pgr7 = node_update new_page_num
                    (write32 leaf_node_next_leaf (read32 (node_at pgr6 old) leaf_node_next_leaf))
                    pgr6;
           pgr8 = node_update old (write32 leaf_node_next_leaf new_page_num) pgr7;
           pgr9 = fold (leaf_node_split_step cursor key val old new_page_num)
                    (rev [0 ..< unat LEAF_NODE_MAX_CELLS + 1]) pgr8;
           pgr10 = node_update old (write32 leaf_node_num_cells LEAF_NODE_LEFT_SPLIT_COUNT) pgr9;
           pgr11 = node_update new_page_num
                     (write32 leaf_node_num_cells LEAF_NODE_RIGHT_SPLIT_COUNT) pgr10
       in Inr (new_page_num, old_max, pgr11))))"

definition leaf_node_split_and_insert ::
  "nat \<Rightarrow> Table \<Rightarrow> Cursor \<Rightarrow> u32 \<Rightarrow> Row \<Rightarrow> fault + Table" where
  "leaf_node_split_and_insert fuel table cursor key val =
     bind_f (leaf_node_split_cells fuel table cursor key val) (\<lambda>(new_page_num, old_max, pgr11).
     let old = page_num cursor in
     if is_node_root (node_at pgr11 old) then
       create_new_root fuel (table\<lparr>pager := pgr11\<rparr>) new_page_num
     else
       let parent_page_num = read32 (node_at pgr11 old) node_parent in
       bind_f (get_node_max_key fuel pgr11 old) (\<lambda>(new_max, pgr12).
       bind_f (get_page pgr12 parent_page_num) (\<lambda>pgr13.
       bind_f (update_internal_node_key fuel pgr13 parent_page_num old_max new_max) (\<lambda>pgr14.
       internal_node_insert fuel (table\<lparr>pager := pgr14\<rparr>) parent_page_num new_page_num))))"

text \<open>
  The cell shift of \<^verbatim>\<open>leaf_node_insert\<close>: for \<open>i\<close> from \<open>num_cells\<close> down to
  \<open>cell_num + 1\<close>, cell \<open>i - 1\<close> is moved to cell \<open>i\<close>.
\<close>

definition leaf_node_shift_cells :: "u32 \<Rightarrow> u32 \<Rightarrow> page \<Rightarrow> page" where
  "leaf_node_shift_cells num_cells cn node =
     fold (\<lambda>i nd. memmove nd (leaf_node_cell (of_nat i)) nd (leaf_node_cell (of_nat i - 1))
                           (unat LEAF_NODE_CELL_SIZE))
          (rev [unat cn + 1 ..< unat num_cells + 1]) node"

definition leaf_node_insert :: "nat \<Rightarrow> Table \<Rightarrow> Cursor \<Rightarrow> u32 \<Rightarrow> Row \<Rightarrow> fault + Table" where
  "leaf_node_insert fuel table cursor key val =
     bind_f (get_page (pager table) (page_num cursor)) (\<lambda>pgr1.
     let node = page_num cursor;
         num_cells = read32 (node_at pgr1 node) leaf_node_num_cells
     in
     if \<not> num_cells \<le> LEAF_NODE_MAX_CELLS then Inl Assertion_Failed
     else if \<not> cell_num cursor \<le> num_cells then Inl Assertion_Failed
     else if num_cells \<ge> LEAF_NODE_MAX_CELLS then
       leaf_node_split_and_insert fuel (table\<lparr>pager := pgr1\<rparr>) cursor key val
     else
       let pgr2 = (if cell_num cursor < num_cells
                   then node_update node (leaf_node_shift_cells num_cells (cell_num cursor)) pgr1
                   else pgr1);
           pgr3 = node_update node
                    (\<lambda>nd. write32 leaf_node_num_cells (read32 nd leaf_node_num_cells + 1) nd) pgr2;
           pgr4 = node_update node (write32 (leaf_node_key (cell_num cursor)) key) pgr3;
           pgr5 = node_update node (serialize_row val (leaf_node_value (cell_num cursor))) pgr4
       in Inr (table\<lparr>pager := pgr5\<rparr>))"

subsection \<open>Executing statements\<close>

definition execute_insert :: "nat \<Rightarrow> Statement \<Rightarrow> Table \<Rightarrow> fault + (ExecuteResult \<times> Table)" where
  "execute_insert fuel statement table =
     bind_f (get_page (pager table) (root_page_num table)) (\<lambda>pgr1.
     let node = root_page_num table;
         num_cells = read32 (node_at pgr1 node) leaf_node_num_cells;
         key_to_insert = id_field (row statement)
     in
     bind_f (table_find fuel (table\<lparr>pager := pgr1\<rparr>) key_to_insert) (\<lambda>(cursor, table1).
     if cell_num cursor < num_cells
        \<and> read32 (node_at (pager table1) node) (leaf_node_key (cell_num cursor)) = key_to_insert
     then Inr (EXECUTE_DUPLICATE_KEY, table1)
     else
       bind_f (leaf_node_insert fuel table1 cursor (id_field (row statement)) (row statement))
         (\<lambda>table2. Inr (EXECUTE_SUCCESS, table2))))"

text \<open>
  What \<^verbatim>\<open>print_row\<close> prints for a row: the id as \<^verbatim>\<open>%d\<close> reads it, and the two C strings.
\<close>

definition print_row :: "Row \<Rightarrow> int \<times> u8 list \<times> u8 list" where
  "print_row r = (sint (id_field r), cstring (username r), cstring (email r))"

text \<open>
  The scan loop of \<^verbatim>\<open>execute_select\<close>.  The first component of the result is what has
  been printed, also when the process stops inside the loop.
\<close>

fun execute_select_loop ::
  "nat \<Rightarrow> Table \<Rightarrow> Cursor \<Rightarrow> (int \<times> u8 list \<times> u8 list) list
     \<Rightarrow> (int \<times> u8 list \<times> u8 list) list \<times> (fault + Table)" where
  "execute_select_loop 0 table cursor out = (out, Inl Out_Of_Fuel)"
| "execute_select_loop (Suc fuel) table cursor out =
     (if \<not> end_of_table cursor then
        case cursor_value table cursor of Inl e \<Rightarrow> (out, Inl e)
        | Inr ((pn, source), table1) \<Rightarrow>
        let r = deserialize_row (node_at (pager table1) pn) source;
            out1 = out @ [print_row r]
        in
        case cursor_advance table1 cursor of Inl e \<Rightarrow> (out1, Inl e)
        | Inr (cursor1, table2) \<Rightarrow> execute_select_loop fuel table2 cursor1 out1
      else (out, Inr table))"

definition execute_select ::
  "nat \<Rightarrow> Statement \<Rightarrow> Table
     \<Rightarrow> (int \<times> u8 list \<times> u8 list) list \<times> (fault + (ExecuteResult \<times> Table))" where
  "execute_select fuel statement table =
     (case table_start fuel table of Inl e \<Rightarrow> ([], Inl e)
      | Inr (cursor, table1) \<Rightarrow>
      let (out, res) = execute_select_loop fuel table1 cursor [] in
      case res of Inl e \<Rightarrow> (out, Inl e)
      | Inr table2 \<Rightarrow> (out, Inr (EXECUTE_SUCCESS, table2)))"

definition execute_statement ::
  "nat \<Rightarrow> Statement \<Rightarrow> Table
     \<Rightarrow> (int \<times> u8 list \<times> u8 list) list \<times> (fault + (ExecuteResult \<times> Table))" where
  "execute_statement fuel statement table =
     (case type statement of
        STATEMENT_INSERT \<Rightarrow> ([], execute_insert fuel statement table)
      | STATEMENT_SELECT \<Rightarrow> execute_select fuel statement table)"

text \<open>The line that \<^verbatim>\<open>main\<close> prints for the result of \<^verbatim>\<open>execute_statement\<close>.\<close>

definition main_response :: "ExecuteResult \<Rightarrow> string" where
  "main_response r =
     (case r of
        EXECUTE_SUCCESS \<Rightarrow> ''Executed.'' @ [CHR 0x0A]
      | EXECUTE_DUPLICATE_KEY \<Rightarrow> ''Error: Duplicate key.'' @ [CHR 0x0A]
      | EXECUTE_TABLE_FULL \<Rightarrow> ''Error: Table is full'')"

text \<open>
  The loop of \<^verbatim>\<open>main\<close> on a list of prepared statements: each is executed on the table
  that the one before it left.  The result is what the selects printed, the results for
  which \<^verbatim>\<open>main\<close> printed its line, and the table at the end, or the way in which the
  process stopped.
\<close>

fun execute_statements ::
  "nat \<Rightarrow> Statement list \<Rightarrow> Table
     \<Rightarrow> (int \<times> u8 list \<times> u8 list) list \<times> ExecuteResult list \<times> (fault + Table)" where
  "execute_statements fuel [] table = ([], [], Inr table)"
| "execute_statements fuel (statement # rest) table =
     (case execute_statement fuel statement table of
        (out, Inl e) \<Rightarrow> (out, [], Inl e)
      | (out, Inr (res, table1)) \<Rightarrow>
          (case execute_statements fuel rest table1 of
             (out1, ress, final) \<Rightarrow> (out @ out1, res # ress, final)))"

subsection \<open>Preparing statements\<close>

text \<open>
  The input buffer holds the line that \<^verbatim>\<open>read_input\<close> read, without the newline that
  it replaces by NUL.  The C library functions see the string up to the first NUL.
\<close>

definition c_str :: "string \<Rightarrow> string" where
  "c_str s = takeWhile (\<lambda>c. c \<noteq> CHR 0x00) s"

text \<open>\<^verbatim>\<open>strcmp(a, b) == 0\<close> and \<^verbatim>\<open>strncmp(a, b, n) == 0\<close>.\<close>

definition strcmp_eq :: "string \<Rightarrow> string \<Rightarrow> bool" where
  "strcmp_eq a b = (c_str a = c_str b)"

definition strncmp_eq :: "string \<Rightarrow> string \<Rightarrow> nat \<Rightarrow> bool" where
  "strncmp_eq a b n = (take n (c_str a) = take n (c_str b))"

text \<open>
  \<^verbatim>\<open>strtok\<close> with the delimiter string \<^verbatim>\<open>" "\<close>, on the C string at which the scan
  starts: the next token and the string at which the next call resumes, or \<open>None\<close>
  for the \<^verbatim>\<open>NULL\<close> that is returned when only delimiters are left.
\<close>

definition strtok :: "string \<Rightarrow> (string \<times> string) option" where
  "strtok s =
     (let s1 = dropWhile (\<lambda>c. c = CHR '' '') s in
      if s1 = [] then None
      else Some (takeWhile (\<lambda>c. c \<noteq> CHR '' '') s1,
                 drop 1 (dropWhile (\<lambda>c. c \<noteq> CHR '' '') s1)))"

text \<open>
  \<^verbatim>\<open>atoi\<close> as the C library has it, \<^verbatim>\<open>(int) strtol(s, NULL, 10)\<close>: leading white space,
  an optional sign, the longest run of decimal digits; the value is clamped to the range
  of \<^verbatim>\<open>long\<close> and cut to the 32 bits of \<^verbatim>\<open>int\<close>.
\<close>

definition isspace :: "char \<Rightarrow> bool" where
  "isspace c = (c \<in> set [CHR '' '', CHR 0x09, CHR 0x0A, CHR 0x0B, CHR 0x0C, CHR 0x0D])"

definition isdigit :: "char \<Rightarrow> bool" where
  "isdigit c = ((48::nat) \<le> of_char c \<and> (of_char c :: nat) \<le> 57)"

definition digits_value :: "string \<Rightarrow> int" where
  "digits_value s = foldl (\<lambda>acc c. 10 * acc + (of_char c - 48)) 0 (takeWhile isdigit s)"

definition strtol :: "string \<Rightarrow> int" where
  "strtol s =
     (let s1 = dropWhile isspace s;
          v = (case s1 of
                 [] \<Rightarrow> 0
               | c # cs \<Rightarrow>
                   if c = CHR ''-'' then - digits_value cs
                   else if c = CHR ''+'' then digits_value cs
                   else digits_value s1)
      in max (- (2 ^ 63)) (min (2 ^ 63 - 1) v))"

definition atoi :: "string \<Rightarrow> int" where
  "atoi s = signed_take_bit 31 (strtol s)"

text \<open>
  \<^verbatim>\<open>strcpy\<close> into a character array of the row: the bytes of the string and a NUL; the
  rest of the array keeps what it held.
\<close>

definition strcpy :: "u8 list \<Rightarrow> string \<Rightarrow> u8 list" where
  "strcpy dest src = map of_char src @ [0] @ drop (length src + 1) dest"

text \<open>
  \<^verbatim>\<open>prepare_insert\<close> and \<^verbatim>\<open>prepare_statement\<close> write into the statement of the caller,
  which the model passes in and returns.
\<close>

definition prepare_insert :: "InputBuffer \<Rightarrow> Statement \<Rightarrow> PrepareResult \<times> Statement" where
  "prepare_insert ib statement =
     (let st = statement\<lparr>type := STATEMENT_INSERT\<rparr> in
      case strtok (c_str (buffer ib)) of None \<Rightarrow> (PREPARE_SYNTAX_ERROR, st)
      | Some (keyword, rest1) \<Rightarrow>
      case strtok rest1 of None \<Rightarrow> (PREPARE_SYNTAX_ERROR, st)
      | Some (id_string, rest2) \<Rightarrow>
      case strtok rest2 of None \<Rightarrow> (PREPARE_SYNTAX_ERROR, st)
      | Some (username_s, rest3) \<Rightarrow>
      case strtok rest3 of None \<Rightarrow> (PREPARE_SYNTAX_ERROR, st)
      | Some (email_s, rest4) \<Rightarrow>
      let id = atoi id_string in
      if id < 0 then (PREPARE_NEGATIVE_ID, st)
      else if length username_s > COLUMN_USERNAME_SIZE then (PREPARE_STRING_TOO_LONG, st)
      else if length email_s > COLUMN_EMAIL_SIZE then (PREPARE_STRING_TOO_LONG, st)
      else
        (PREPARE_SUCCESS,
         st\<lparr>row := \<lparr>id_field = word_of_int id,
                     username = strcpy (username (row st)) username_s,
                     email = strcpy (email (row st)) email_s\<rparr>\<rparr>))"

definition prepare_statement :: "InputBuffer \<Rightarrow> Statement \<Rightarrow> PrepareResult \<times> Statement" where
  "prepare_statement ib statement =
     (if strncmp_eq (buffer ib) ''insert'' 6 then prepare_insert ib statement
      else if strcmp_eq (buffer ib) ''select'' then
        (PREPARE_SUCCESS, statement\<lparr>type := STATEMENT_SELECT\<rparr>)
      else (PREPARE_UNRECOGNIZED, statement))"

subsection \<open>An empty database file\<close>

text \<open>
  A host on which the file opens and has length 0, so that every \<^verbatim>\<open>read\<close> is at end of
  file and leaves the buffer as it is; fresh buffers hold zero bytes.
\<close>

definition empty_host :: Host where
  "empty_host =
     \<lparr>open_ok = True, host_file_length = 0,
      host_malloc_page = (\<lambda>n a. 0), host_read_page = (\<lambda>n b. Some b)\<rparr>"

text \<open>The table that \<^verbatim>\<open>db_open\<close> returns for it: page 0 is an empty leaf and the root.\<close>

definition empty_table :: Table where
  "empty_table =
     \<lparr>root_page_num = 0,
      pager = \<lparr>file_length = 0, num_pages = 1,
               pages = (\<lambda>i. None)(0 := Some (set_node_root True (init_leaf_node (\<lambda>a. 0)))),
               malloc_page = (\<lambda>n a. 0), read_page = (\<lambda>n b. Some b)\<rparr>\<rparr>"

subsection \<open>The cells of a leaf, as they are read back\<close>

text \<open>
  The key and the deserialized row of cell \<open>i\<close> of a leaf, the list of the cells that the
  cell count of the leaf covers, and the row that is read back from a cell in which
  \<^verbatim>\<open>serialize_row\<close> stored the row \<open>r\<close>.
\<close>

definition leaf_cell_at :: "page \<Rightarrow> nat \<Rightarrow> u32 \<times> Row" where
  "leaf_cell_at node i =
     (read32 node (leaf_node_key (of_nat i)), deserialize_row node (leaf_node_value (of_nat i)))"

definition leaf_cells :: "page \<Rightarrow> (u32 \<times> Row) list" where
  "leaf_cells node = map (leaf_cell_at node) [0..<unat (read32 node leaf_node_num_cells)]"

definition stored_row :: "Row \<Rightarrow> Row" where
  "stored_row r = deserialize_row (serialize_row r 0 (\<lambda>a. 0)) 0"

subsection \<open>A full leaf\<close>

text \<open>
  A table whose root is a leaf with 13 cells, with the keys 10, 20, ..., 130 (the rows of
  the cells are zero bytes).
\<close>

definition full_leaf :: page where
  "full_leaf =
     fold (\<lambda>i. write32 (leaf_node_key (of_nat i)) (of_nat (10 * (i + 1)))) [0..<13]
       (write32 leaf_node_num_cells 13 (set_node_root True (init_leaf_node (\<lambda>a. 0))))"

definition full_leaf_table :: Table where
  "full_leaf_table =
     \<lparr>root_page_num = 0,
      pager = \<lparr>file_length = 0, num_pages = 1,
               pages = (\<lambda>i. None)(0 := Some full_leaf),
               malloc_page = (\<lambda>n a. 0), read_page = (\<lambda>n b. Some b)\<rparr>\<rparr>"

subsection \<open>The cells of a leaf after a split\<close>

text \<open>
  Cell \<open>j\<close> of the 14 logical cells that a split redistributes: the 13 cells of the full
  leaf \<open>old\<close> with the new cell \<open>(key, val)\<close> at position \<open>c\<close>.  \<open>split_writer\<close> is the
  write that iteration \<open>i\<close> of the redistribution loop performs on its destination page.
\<close>

definition split_cell :: "page \<Rightarrow> nat \<Rightarrow> u32 \<Rightarrow> Row \<Rightarrow> nat \<Rightarrow> u32 \<times> Row" where
  "split_cell old c key val j =
     (if j = c then (key, stored_row val)
      else if c < j then leaf_cell_at old (j - 1)
      else leaf_cell_at old j)"

definition split_writer :: "page \<Rightarrow> nat \<Rightarrow> u32 \<Rightarrow> Row \<Rightarrow> nat \<Rightarrow> page \<Rightarrow> page" where
  "split_writer old c key val i =
     (if i = c
      then (\<lambda>d. write32 (14 + 297 * (i mod 7)) key (serialize_row val (18 + 297 * (i mod 7)) d))
      else if c < i
      then (\<lambda>d. memmove d (14 + 297 * (i mod 7)) old (14 + 297 * (i - 1)) 297)
      else (\<lambda>d. memmove d (14 + 297 * (i mod 7)) old (14 + 297 * i) 297))"

text \<open>The 14 logical cells as a list, in the order in which the split distributes them.\<close>

definition merged_cells :: "page \<Rightarrow> nat \<Rightarrow> u32 \<Rightarrow> Row \<Rightarrow> (u32 \<times> Row) list" where
  "merged_cells old c key val =
     take c (leaf_cells old) @ [(key, stored_row val)] @ drop c (leaf_cells old)"

subsection \<open>Statements and tables of the properties\<close>

text \<open>
  The insert statement for a row and a select statement, the cell that an insertion of a
  row stores, and the tables whose only page is a root leaf with the given cells.
\<close>

definition insert_statement :: "Row \<Rightarrow> Statement" where
  "insert_statement r = \<lparr>type = STATEMENT_INSERT, row = r\<rparr>"

definition select_statement :: Statement where
  "select_statement = \<lparr>type = STATEMENT_SELECT, row = \<lparr>id_field = 0, username = [], email = []\<rparr>\<rparr>"

definition cell_of :: "Row \<Rightarrow> u32 \<times> Row" where
  "cell_of r = (id_field r, stored_row r)"

definition leaf_root_state :: "Table \<Rightarrow> (u32 \<times> Row) list \<Rightarrow> bool" where
  "leaf_root_state t cells =
     (root_page_num t = 0 \<and> num_pages (pager t) = 1 \<and> length cells \<le> 13
      \<and> (\<forall>n b. read_page (pager t) n b = Some b)
      \<and> (\<exists>p. pages (pager t) 0 = Some p \<and> get_node_type p = NODE_LEAF \<and> is_node_root p
             \<and> read32 p leaf_node_next_leaf = INVALID_PAGE_NUM \<and> leaf_cells p = cells))"

text \<open>
  The tables in which page 0 is an internal root with one key, above the left leaf in page
  2 with the first 7 of the given 14 cells and the right leaf in page 1 with the last 7.
\<close>

definition split_root_state :: "Table \<Rightarrow> (u32 \<times> Row) list \<Rightarrow> bool" where
  "split_root_state t cells =
     (root_page_num t = 0 \<and> length cells = 14
      \<and> (\<exists>rt l n. pages (pager t) 0 = Some rt \<and> pages (pager t) 2 = Some l
             \<and> pages (pager t) 1 = Some n
             \<and> get_node_type rt = NODE_INTERNAL
             \<and> read32 rt internal_node_num_keys = 1
             \<and> read32 rt (internal_node_cell 0) = 2
             \<and> read32 rt (internal_node_key 0) = fst (cells ! 6)
             \<and> read32 rt internal_node_right_child = 1
             \<and> get_node_type l = NODE_LEAF \<and> leaf_cells l = take 7 cells
             \<and> get_node_type n = NODE_LEAF \<and> leaf_cells n = drop 7 cells))"






section \<open>Properties\<close>

lemmas layout_defs =
  COLUMN_USERNAME_SIZE_def COLUMN_EMAIL_SIZE_def TABLE_MAX_PAGES_def INVALID_PAGE_NUM_def
  PAGE_SIZE_def ID_SIZE_def USERNAME_SIZE_def EMAIL_SIZE_def ID_OFFSET_def USERNAME_OFFSET_def
  EMAIL_OFFSET_def ROW_SIZE_def NODE_TYPE_SIZE_def NODE_TYPE_OFFSET_def IS_ROOT_SIZE_def
  IS_ROOT_OFFSET_def PARENT_POINTER_SIZE_def PARENT_POINTER_OFFSET_def
  COMMON_NODE_HEADER_SIZE_def LEAF_NODE_NUM_CELLS_SIZE_def LEAF_NODE_NUM_CELLS_OFFSET_def
  LEAF_NODE_NEXT_LEAF_SIZE_def LEAF_NODE_NEXT_LEAF_OFFSET_def LEAF_NODE_HEADER_SIZE_def
  LEAF_NODE_KEY_SIZE_def LEAF_NODE_KEY_OFFSET_def LEAF_NODE_VALUE_SIZE_def
  LEAF_NODE_VALUE_OFFSET_def LEAF_NODE_CELL_SIZE_def LEAF_NODE_SPACE_FOR_CELLS_def
  LEAF_NODE_MAX_CELLS_def LEAF_NODE_RIGHT_SPLIT_COUNT_def LEAF_NODE_LEFT_SPLIT_COUNT_def
  INTERNAL_NODE_NUM_KEYS_SIZE_def INTERNAL_NODE_NUM_KEYS_OFFSET_def
  INTERNAL_NODE_RIGHT_CHILD_SIZE_def INTERNAL_NODE_RIGHT_CHILD_OFFSET_def
  INTERNAL_NODE_HEADER_SIZE_def INTERNAL_NODE_KEY_SIZE_def INTERNAL_NODE_CHILD_SIZE_def
  INTERNAL_NODE_CELL_SIZE_def INTERNAL_NODE_MAX_CELLS_def NODE_INTERNAL_def NODE_LEAF_def


lemmas parse_defs =
  prepare_statement_def prepare_insert_def strncmp_eq_def strcmp_eq_def c_str_def strtok_def
  atoi_def strtol_def digits_value_def isdigit_def isspace_def strcpy_def

lemmas codec_defs =
  leaf_node_num_cells_def leaf_node_cell_def leaf_node_key_def leaf_node_value_def
  leaf_node_next_leaf_def get_node_type_def set_node_type_def internal_node_num_keys_def
  internal_node_right_child_def internal_node_cell_def internal_node_key_def is_node_root_def
  set_node_root_def node_parent_def init_leaf_node_def init_internal_node_def

lemma bind_f_simps [simp]: "bind_f (Inl e) f = Inl e" "bind_f (Inr x) f = f x"
  by (simp_all add: bind_f_def)

subsection \<open>Offsets and sizes as numbers\<close>

lemma offsets:
  "leaf_node_num_cells = 6" "leaf_node_next_leaf = 10" "node_parent = 2"
  "internal_node_num_keys = 6" "internal_node_right_child = 10"
  "leaf_node_cell c = 14 + unat (c * 297)" "leaf_node_key c = 14 + unat (c * 297)"
  "leaf_node_value c = 18 + unat (c * 297)"
  "internal_node_cell c = 14 + unat (c * 8)" "internal_node_key c = 18 + unat (c * 8)"
  by (simp_all add: codec_defs layout_defs)

lemma sizes:
  "unat LEAF_NODE_CELL_SIZE = 297" "unat INTERNAL_NODE_CELL_SIZE = 8" "unat PAGE_SIZE = 4096"
  "LEAF_NODE_MAX_CELLS = 13" "LEAF_NODE_LEFT_SPLIT_COUNT = 7" "LEAF_NODE_RIGHT_SPLIT_COUNT = 7"
  "INTERNAL_NODE_MAX_CELLS = 3" "TABLE_MAX_PAGES = 100" "INVALID_PAGE_NUM = 0xFFFFFFFF"
  "unat EMAIL_OFFSET = 37" "unat USERNAME_OFFSET = 4" "unat ID_OFFSET = 0"
  "unat EMAIL_SIZE = 256" "unat USERNAME_SIZE = 33"
  by (simp_all add: layout_defs)

subsection \<open>Reading what was written\<close>

lemma word_bytes_eq:
  "ucast (byte_of v 0) OR push_bit 8 (ucast (byte_of v 1)) OR
   push_bit 16 (ucast (byte_of v 2)) OR push_bit 24 (ucast (byte_of v 3)) = v"
proof (rule bit_word_eqI)
  fix n :: nat
  assume "n < LENGTH(32)"
  then have n: "n < 32" by simp
  consider "n < 8" | "8 \<le> n" "n < 16" | "16 \<le> n" "n < 24" | "24 \<le> n" "n < 32"
    using n by linarith
  then show "bit (ucast (byte_of v 0) OR push_bit 8 (ucast (byte_of v 1)) OR
       push_bit 16 (ucast (byte_of v 2)) OR push_bit 24 (ucast (byte_of v 3)) :: u32) n = bit v n"
    by cases (auto simp: byte_of_def bit_simps)
qed

lemma read32_write32_same: "read32 (write32 a v node) a = v"
  using word_bytes_eq[of v] by (simp add: read32_def write32_def)

lemma read32_cong:
  assumes "\<And>k. k < 4 \<Longrightarrow> p (a + k) = q (b + k)"
  shows "read32 p a = read32 q b"
  using assms[of 0] assms[of 1] assms[of 2] assms[of 3] by (simp add: read32_def)

lemma load_bytes_cong:
  assumes "\<And>k. k < n \<Longrightarrow> p (a + k) = q (b + k)"
  shows "load_bytes p a n = load_bytes q b n"
  using assms by (auto simp: load_bytes_def list_eq_iff_nth_eq)

lemma read32_write32_other:
  "a + 4 \<le> b \<or> b + 4 \<le> a \<Longrightarrow> read32 (write32 a v node) b = read32 node b"
  by (rule read32_cong) (auto simp: write32_def)

lemma read32_write8:
  "a < b \<or> b + 4 \<le> a \<Longrightarrow> read32 (write8 a w node) b = read32 node b"
  by (rule read32_cong) (auto simp: write8_def)

lemma read32_strncpy_other:
  "b + 4 \<le> d \<or> d + n \<le> b \<Longrightarrow> read32 (strncpy d src n node) b = read32 node b"
  by (rule read32_cong) (auto simp: strncpy_def)

lemma read32_set_node:
  "1 < b \<Longrightarrow> read32 (set_node_type ty node) b = read32 node b"
  "1 < b \<Longrightarrow> read32 (set_node_root r node) b = read32 node b"
  by (rule read32_cong, simp add: set_node_type_def set_node_root_def write8_def layout_defs)+

lemma read32_memmove_in:
  "d \<le> b \<and> b + 4 \<le> d + n \<Longrightarrow> read32 (memmove dst d sp s n) b = read32 sp (s + (b - d))"
  by (rule read32_cong) (auto simp: memmove_def intro!: arg_cong[of _ _ sp])

lemma read32_memmove_out:
  "b + 4 \<le> d \<or> d + n \<le> b \<Longrightarrow> read32 (memmove dst d sp s n) b = read32 dst b"
  by (rule read32_cong) (auto simp: memmove_def)

lemmas read32_simps = read32_write32_same read32_write32_other read32_write8
  read32_strncpy_other read32_set_node read32_memmove_in read32_memmove_out

lemma node_type_simps:
  "get_node_type (write8 a w node) = (if a = 0 then w else get_node_type node)"
  "a \<noteq> 0 \<Longrightarrow> get_node_type (write32 a v node) = get_node_type node"
  "d \<noteq> 0 \<Longrightarrow> get_node_type (strncpy d src n node) = get_node_type node"
  "get_node_type (set_node_type ty node) = ty"
  "get_node_type (set_node_root b node) = get_node_type node"
  by (auto simp: get_node_type_def set_node_type_def set_node_root_def read8_def write8_def
      write32_def strncpy_def layout_defs)

lemma is_root_simps:
  "is_node_root (set_node_root b node) = b"
  "is_node_root (set_node_type ty node) = is_node_root node"
  "1 < a \<Longrightarrow> is_node_root (write32 a v node) = is_node_root node"
  "1 < d \<Longrightarrow> is_node_root (strncpy d src n node) = is_node_root node"
  by (auto simp: is_node_root_def set_node_type_def set_node_root_def read8_def write8_def
      write32_def strncpy_def layout_defs)

lemma init_leaf_node_fields:
  "get_node_type (init_leaf_node node) = NODE_LEAF"
  "is_node_root (init_leaf_node node) = False"
  "read32 (init_leaf_node node) 6 = 0"
  "read32 (init_leaf_node node) 10 = INVALID_PAGE_NUM"
  "read32 (init_leaf_node node) 2 = read32 node 2"
  "14 \<le> b \<Longrightarrow> read32 (init_leaf_node node) b = read32 node b"
  by (simp_all add: init_leaf_node_def offsets node_type_simps is_root_simps read32_simps)

lemma load_bytes_strncpy_same:
  "load_bytes (strncpy d src n node) d n =
     map (\<lambda>k. if k < length (cstring (take n src)) then src ! k else 0) [0..<n]"
  by (auto simp: load_bytes_def strncpy_def list_eq_iff_nth_eq)

lemma load_bytes_strncpy_other:
  "a + m \<le> d \<or> d + n \<le> a \<Longrightarrow> load_bytes (strncpy d src n node) a m = load_bytes node a m"
  by (auto simp: load_bytes_def strncpy_def)

lemma takeWhile_take_short:
  "length (takeWhile P xs) < n \<Longrightarrow> takeWhile P (take n xs) = takeWhile P xs"
proof (induction xs arbitrary: n)
  case Nil
  then show ?case by simp
next
  case (Cons x xs)
  then show ?case by (cases n) (auto split: if_splits)
qed

lemma strncpy_image:
  assumes "length (cstring src) < n"
  shows "map (\<lambda>k. if k < length (cstring (take n src)) then src ! k else 0) [0..<n]
           = cstring src @ replicate (n - length (cstring src)) 0"
proof -
  have eq: "cstring (take n src) = cstring src"
    using assms by (simp add: cstring_def takeWhile_take_short)
  have nth: "\<And>k. k < length (cstring src) \<Longrightarrow> cstring src ! k = src ! k"
    by (simp add: cstring_def takeWhile_nth)
  show ?thesis
    using assms nth by (auto simp: eq list_eq_iff_nth_eq nth_append)
qed

lemma cstring_padded:
  assumes "0 < m"
  shows "cstring (cstring s @ replicate m 0) = cstring s"
proof -
  obtain k where m: "m = Suc k"
    using assms by (cases m) auto
  have "\<forall>c \<in> set (cstring s). c \<noteq> 0"
    by (auto simp: cstring_def dest: set_takeWhileD)
  then show ?thesis
    unfolding m by (simp add: cstring_def takeWhile_append2)
qed

lemma deserialize_serialize_row:
  assumes u: "length (cstring (username r)) \<le> COLUMN_USERNAME_SIZE"
      and e: "length (cstring (email r)) \<le> COLUMN_EMAIL_SIZE"
  shows "deserialize_row (serialize_row r dest node) dest =
           \<lparr>id_field = id_field r,
            username = cstring (username r) @ replicate (33 - length (cstring (username r))) 0,
            email = cstring (email r) @ replicate (256 - length (cstring (email r))) 0\<rparr>"
proof -
  have u': "length (cstring (username r)) < 33" and e': "length (cstring (email r)) < 256"
    using u e by (simp_all add: layout_defs)
  show ?thesis
    unfolding deserialize_row_def serialize_row_def
    by (simp add: layout_defs read32_strncpy_other read32_write32_same
        load_bytes_strncpy_same load_bytes_strncpy_other strncpy_image[OF u'] strncpy_image[OF e'])
qed

lemma db_open_empty_host: "db_open empty_host = Inr empty_table"
  by (simp add: db_open_def pager_open_def empty_host_def empty_table_def get_page_def
      node_update_def layout_defs Let_def)

subsection \<open>Pages that are in the cache\<close>

lemma get_page_loaded:
  "pages pgr n = Some p \<Longrightarrow> n < TABLE_MAX_PAGES \<Longrightarrow> get_page pgr n = Inr pgr"
  by (auto simp: get_page_def)

lemma node_at_loaded: "pages pgr n = Some p \<Longrightarrow> node_at pgr n = p"
  by (simp add: node_at_def)

lemma table_pager_same [simp]: "t\<lparr>pager := pager t\<rparr> = t"
  by simp

lemma empty_table_root:
  "pages (pager empty_table) 0 = Some (set_node_root True (init_leaf_node (\<lambda>a. 0)))"
  "root_page_num empty_table = 0"
  by (simp_all add: empty_table_def)

lemma empty_root_fields:
  "get_node_type (set_node_root True (init_leaf_node node)) = NODE_LEAF"
  "read32 (set_node_root True (init_leaf_node node)) 6 = 0"
  "read32 (set_node_root True (init_leaf_node node)) 10 = INVALID_PAGE_NUM"
  by (simp_all add: node_type_simps read32_simps init_leaf_node_fields)

lemma table_find_empty:
  "table_find (Suc fuel) empty_table key =
     Inr (\<lparr>page_num = 0, cell_num = 0, end_of_table = False\<rparr>, empty_table)"
  by (simp add: table_find_def leaf_node_find_def get_page_loaded[OF empty_table_root(1)]
      node_at_loaded[OF empty_table_root(1)] empty_table_root(2) empty_root_fields offsets sizes)

lemma execute_statement_select_empty:
  "execute_statement (Suc fuel) \<lparr>type = STATEMENT_SELECT, row = r\<rparr> empty_table
     = ([], Inr (EXECUTE_SUCCESS, empty_table))"
  by (simp add: execute_statement_def execute_select_def table_start_def table_find_empty
      get_page_loaded[OF empty_table_root(1)] node_at_loaded[OF empty_table_root(1)]
      empty_root_fields offsets sizes)

lemma cursor_advance_empty:
  "cursor_advance empty_table \<lparr>page_num = 0, cell_num = 0, end_of_table = False\<rparr>
     = Inr (\<lparr>page_num = INVALID_PAGE_NUM, cell_num = 0, end_of_table = False\<rparr>, empty_table)"
  by (simp add: cursor_advance_def get_page_loaded[OF empty_table_root(1)]
      node_at_loaded[OF empty_table_root(1)] empty_root_fields offsets sizes)

subsection \<open>Row layout and row fidelity\<close>

text \<open>
  Claim C6 as the specification states it gives the serialized row 291 bytes.  The sizes
  are taken from the struct, whose arrays have 33 and 256 bytes, so the sum is not 291.
\<close>

theorem row_size_is_not_291: "ROW_SIZE \<noteq> 291 \<and> LEAF_NODE_VALUE_SIZE \<noteq> 291"
  by (simp add: layout_defs)

text \<open>
  Claim C6, amended: a serialized row occupies exactly 293 bytes, laid out as id (4 bytes)
  at offset 0, username (33 bytes) at offset 4 and email (256 bytes) at offset 37;
  \<^verbatim>\<open>serialize_row\<close> writes these 293 bytes, determined by the row alone, and no other;
  each leaf cell is a 4-byte key followed by this 293-byte row, 297 bytes in all.
\<close>

theorem row_layout_293:
  "ROW_SIZE = 293 \<and> ID_OFFSET = 0 \<and> ID_SIZE = 4 \<and> USERNAME_OFFSET = 4 \<and> USERNAME_SIZE = 33
   \<and> EMAIL_OFFSET = 37 \<and> EMAIL_SIZE = 256
   \<and> serialize_row r dest node x =
        (if dest \<le> x \<and> x < dest + 293 then serialize_row r dest (\<lambda>a. 0) x else node x)
   \<and> LEAF_NODE_KEY_SIZE = 4 \<and> LEAF_NODE_VALUE_SIZE = 293 \<and> LEAF_NODE_CELL_SIZE = 297
   \<and> leaf_node_key c = leaf_node_cell c \<and> leaf_node_value c = leaf_node_cell c + 4"
  by (auto simp: layout_defs serialize_row_def strncpy_def write32_def leaf_node_value_def
      leaf_node_key_def)

text \<open>
  Claim C8: for every row whose username is a string of at most 32 bytes and whose email
  is a string of at most 255 bytes, \<^verbatim>\<open>deserialize_row\<close> applied to what \<^verbatim>\<open>serialize_row\<close>
  wrote yields a row with the same id, the same username and the same email; the two
  arrays hold the string and NUL bytes up to their 33 and 256 bytes, and the row prints
  as the original does.
\<close>

theorem row_roundtrip:
  assumes "length (cstring (username r)) \<le> COLUMN_USERNAME_SIZE"
      and "length (cstring (email r)) \<le> COLUMN_EMAIL_SIZE"
  shows "id_field (deserialize_row (serialize_row r dest node) dest) = id_field r
     \<and> cstring (username (deserialize_row (serialize_row r dest node) dest)) = cstring (username r)
     \<and> cstring (email (deserialize_row (serialize_row r dest node) dest)) = cstring (email r)
     \<and> length (username (deserialize_row (serialize_row r dest node) dest)) = 33
     \<and> length (email (deserialize_row (serialize_row r dest node) dest)) = 256
     \<and> print_row (deserialize_row (serialize_row r dest node) dest) = print_row r"
proof -
  have u: "0 < 33 - length (cstring (username r))" and e: "0 < 256 - length (cstring (email r))"
    using assms by (simp_all add: layout_defs)
  show ?thesis
    using assms u e
    by (simp add: deserialize_serialize_row print_row_def cstring_padded)
qed

theorem row_roundtrip_witness:
  "length (cstring (username \<lparr>id_field = 7, username = [0x75, 0x31, 0] @ replicate 30 0,
                              email = [0x61, 0x40, 0x62, 0] @ replicate 252 0\<rparr>))
     \<le> COLUMN_USERNAME_SIZE
   \<and> length (cstring (email \<lparr>id_field = 7, username = [0x75, 0x31, 0] @ replicate 30 0,
                              email = [0x61, 0x40, 0x62, 0] @ replicate 252 0\<rparr>))
     \<le> COLUMN_EMAIL_SIZE
   \<and> print_row (deserialize_row
        (serialize_row \<lparr>id_field = 7, username = [0x75, 0x31, 0] @ replicate 30 0,
                        email = [0x61, 0x40, 0x62, 0] @ replicate 252 0\<rparr> 14 (\<lambda>a. 0)) 14)
     = (7, [0x75, 0x31], [0x61, 0x40, 0x62])"
  using row_roundtrip [of "\<lparr>id_field = 7, username = [0x75, 0x31, 0] @ replicate 30 0,
                            email = [0x61, 0x40, 0x62, 0] @ replicate 252 0\<rparr>" 14 "\<lambda>a. 0"]
  by (simp add: cstring_def print_row_def layout_defs)

subsection \<open>Preparing statements\<close>

text \<open>
  Claim C9: \<^verbatim>\<open>prepare_statement\<close> hands every line whose first six characters are
  \<^verbatim>\<open>insert\<close> to \<^verbatim>\<open>prepare_insert\<close>, whatever follows the keyword; of the other lines it
  accepts exactly the line \<^verbatim>\<open>select\<close>, and answers \<^verbatim>\<open>PREPARE_UNRECOGNIZED\<close> for the rest.
\<close>

theorem prepare_statement_insert_prefix:
  "(take 6 (c_str (buffer ib)) = ''insert'' \<longrightarrow> prepare_statement ib st = prepare_insert ib st)
   \<and> (take 6 (c_str (buffer ib)) \<noteq> ''insert'' \<longrightarrow>
        (fst (prepare_statement ib st) = PREPARE_SUCCESS) = (c_str (buffer ib) = ''select''))
   \<and> (take 6 (c_str (buffer ib)) \<noteq> ''insert'' \<and> c_str (buffer ib) \<noteq> ''select'' \<longrightarrow>
        prepare_statement ib st = (PREPARE_UNRECOGNIZED, st))"
  by (simp add: prepare_statement_def strncmp_eq_def strcmp_eq_def c_str_def)

theorem prepare_statement_insert_prefix_witness:
  "take 6 (c_str (buffer \<lparr>buffer = ''insertxyz 1 u e@x'', buffer_length = 18, input_length = 17\<rparr>))
     = ''insert''
   \<and> prepare_statement \<lparr>buffer = ''insertxyz 1 u e@x'', buffer_length = 18, input_length = 17\<rparr>
        \<lparr>type = STATEMENT_SELECT, row = \<lparr>id_field = 0, username = [], email = []\<rparr>\<rparr>
     = prepare_insert \<lparr>buffer = ''insertxyz 1 u e@x'', buffer_length = 18, input_length = 17\<rparr>
        \<lparr>type = STATEMENT_SELECT, row = \<lparr>id_field = 0, username = [], email = []\<rparr>\<rparr>
   \<and> prepare_insert \<lparr>buffer = ''insertxyz 1 u e@x'', buffer_length = 18, input_length = 17\<rparr>
        \<lparr>type = STATEMENT_SELECT, row = \<lparr>id_field = 0, username = [], email = []\<rparr>\<rparr>
     = (PREPARE_SUCCESS,
        \<lparr>type = STATEMENT_INSERT,
         row = \<lparr>id_field = 1, username = [0x75, 0], email = [0x65, 0x40, 0x78, 0]\<rparr>\<rparr>)
   \<and> take 6 (c_str (buffer \<lparr>buffer = ''select '', buffer_length = 8, input_length = 7\<rparr>))
     \<noteq> ''insert''
   \<and> c_str (buffer \<lparr>buffer = ''select '', buffer_length = 8, input_length = 7\<rparr>) \<noteq> ''select''
   \<and> fst (prepare_statement \<lparr>buffer = ''select '', buffer_length = 8, input_length = 7\<rparr>
        \<lparr>type = STATEMENT_SELECT, row = \<lparr>id_field = 0, username = [], email = []\<rparr>\<rparr>)
     = PREPARE_UNRECOGNIZED"
  using prepare_statement_insert_prefix
          [of "\<lparr>buffer = ''insertxyz 1 u e@x'', buffer_length = 18, input_length = 17\<rparr>"
              "\<lparr>type = STATEMENT_SELECT, row = \<lparr>id_field = 0, username = [], email = []\<rparr>\<rparr>"]
        prepare_statement_insert_prefix
          [of "\<lparr>buffer = ''select '', buffer_length = 8, input_length = 7\<rparr>"
              "\<lparr>type = STATEMENT_SELECT, row = \<lparr>id_field = 0, username = [], email = []\<rparr>\<rparr>"]
  by (simp add: parse_defs layout_defs)

lemma atoi_non_numeric:
  "id_string \<noteq> [] \<Longrightarrow> \<not> isdigit (hd id_string) \<Longrightarrow> \<not> isspace (hd id_string) \<Longrightarrow>
   hd id_string \<noteq> CHR ''-'' \<Longrightarrow> hd id_string \<noteq> CHR ''+'' \<Longrightarrow> atoi id_string = 0"
  by (cases id_string) (auto simp: atoi_def strtol_def digits_value_def)

lemma atoi_zero: "atoi ''0'' = 0"
  by (simp add: atoi_def strtol_def digits_value_def isdigit_def isspace_def)

text \<open>
  Claim C10: \<^verbatim>\<open>prepare_insert\<close> converts the id token with \<^verbatim>\<open>atoi\<close> and answers
  \<^verbatim>\<open>PREPARE_NEGATIVE_ID\<close> exactly when the four tokens are there and \<^verbatim>\<open>atoi\<close> yields a
  negative value.  A token for which \<^verbatim>\<open>atoi\<close> yields 0 or more is accepted, and if the two
  strings fit, the statement's row gets \<^verbatim>\<open>atoi\<close>'s value as its id; the token \<^verbatim>\<open>0\<close> and
  every token that starts with a character that is neither a digit, a sign nor white
  space (for which \<^verbatim>\<open>atoi\<close> yields 0) are among them.
\<close>

theorem prepare_insert_rejects_only_negative:
  "(\<forall>keyword r1 id_string r2 u r3 e r4.
      strtok (c_str (buffer ib)) = Some (keyword, r1) \<and> strtok r1 = Some (id_string, r2) \<and>
      strtok r2 = Some (u, r3) \<and> strtok r3 = Some (e, r4) \<longrightarrow>
        (fst (prepare_insert ib st) = PREPARE_NEGATIVE_ID) = (atoi id_string < 0)
      \<and> (0 \<le> atoi id_string \<and> length u \<le> COLUMN_USERNAME_SIZE \<and> length e \<le> COLUMN_EMAIL_SIZE
           \<longrightarrow> fst (prepare_insert ib st) = PREPARE_SUCCESS
             \<and> id_field (row (snd (prepare_insert ib st))) = word_of_int (atoi id_string))
      \<and> (id_string \<noteq> [] \<and> \<not> isdigit (hd id_string) \<and> \<not> isspace (hd id_string) \<and>
           hd id_string \<noteq> CHR ''-'' \<and> hd id_string \<noteq> CHR ''+'' \<longrightarrow> atoi id_string = 0)
      \<and> (id_string = ''0'' \<longrightarrow> atoi id_string = 0))
   \<and> (fst (prepare_insert ib st) = PREPARE_NEGATIVE_ID \<longrightarrow>
        (\<exists>keyword r1 id_string r2. strtok (c_str (buffer ib)) = Some (keyword, r1) \<and>
            strtok r1 = Some (id_string, r2) \<and> atoi id_string < 0))"
  using atoi_zero atoi_non_numeric
  by (auto simp: prepare_insert_def Let_def split: option.splits prod.splits if_splits)

theorem prepare_insert_rejects_only_negative_witness:
  "strtok (c_str (buffer \<lparr>buffer = ''insert abc u e@x'', buffer_length = 17, input_length = 16\<rparr>))
     = Some (''insert'', ''abc u e@x'')
   \<and> strtok ''abc u e@x'' = Some (''abc'', ''u e@x'')
   \<and> strtok ''u e@x'' = Some (''u'', ''e@x'') \<and> strtok ''e@x'' = Some (''e@x'', [])
   \<and> \<not> isdigit (hd ''abc'') \<and> \<not> isspace (hd ''abc'') \<and> atoi ''abc'' = 0
   \<and> fst (prepare_insert \<lparr>buffer = ''insert abc u e@x'', buffer_length = 17, input_length = 16\<rparr>
        \<lparr>type = STATEMENT_SELECT, row = \<lparr>id_field = 5, username = [], email = []\<rparr>\<rparr>)
     = PREPARE_SUCCESS
   \<and> id_field (row (snd (prepare_insert
        \<lparr>buffer = ''insert abc u e@x'', buffer_length = 17, input_length = 16\<rparr>
        \<lparr>type = STATEMENT_SELECT, row = \<lparr>id_field = 5, username = [], email = []\<rparr>\<rparr>))) = 0
   \<and> atoi ''-1'' < 0
   \<and> fst (prepare_insert \<lparr>buffer = ''insert -1 a a@a'', buffer_length = 16, input_length = 15\<rparr>
        \<lparr>type = STATEMENT_SELECT, row = \<lparr>id_field = 5, username = [], email = []\<rparr>\<rparr>)
     = PREPARE_NEGATIVE_ID"
  using prepare_insert_rejects_only_negative
          [of "\<lparr>buffer = ''insert abc u e@x'', buffer_length = 17, input_length = 16\<rparr>"
              "\<lparr>type = STATEMENT_SELECT, row = \<lparr>id_field = 5, username = [], email = []\<rparr>\<rparr>"]
        prepare_insert_rejects_only_negative
          [of "\<lparr>buffer = ''insert -1 a a@a'', buffer_length = 16, input_length = 15\<rparr>"
              "\<lparr>type = STATEMENT_SELECT, row = \<lparr>id_field = 5, username = [], email = []\<rparr>\<rparr>"]
  by (simp add: parse_defs layout_defs)

subsection \<open>Results of the executor\<close>

lemma execute_insert_result:
  "execute_insert fuel st t = Inr (r, t') \<Longrightarrow> r = EXECUTE_SUCCESS \<or> r = EXECUTE_DUPLICATE_KEY"
  by (auto simp: execute_insert_def bind_f_def Let_def split: sum.splits if_splits prod.splits)

lemma execute_select_result:
  "snd (execute_select fuel st t) = Inr (r, t') \<Longrightarrow> r = EXECUTE_SUCCESS"
  by (auto simp: execute_select_def Let_def split: sum.splits if_splits prod.splits)

text \<open>
  Claim C7: for every table, every statement and every bound on the steps,
  \<^verbatim>\<open>execute_statement\<close> never returns \<^verbatim>\<open>EXECUTE_TABLE_FULL\<close>, so the line that \<^verbatim>\<open>main\<close>
  prints for its result is never \<^verbatim>\<open>Error: Table is full\<close>.
\<close>

theorem execute_statement_never_table_full:
  "snd (execute_statement fuel statement table) \<noteq> Inr (EXECUTE_TABLE_FULL, table')
   \<and> (snd (execute_statement fuel statement table) = Inr (r, table') \<longrightarrow>
        main_response r \<noteq> ''Error: Table is full'')"
  using execute_insert_result[of fuel statement table]
        execute_select_result[of fuel statement table]
  by (cases "type statement")
     (auto simp: execute_statement_def main_response_def split: ExecuteResult.splits)

theorem execute_statement_never_table_full_witness:
  "snd (execute_statement 1
          \<lparr>type = STATEMENT_SELECT, row = \<lparr>id_field = 0, username = [], email = []\<rparr>\<rparr> empty_table)
     = Inr (EXECUTE_SUCCESS, empty_table)
   \<and> main_response EXECUTE_SUCCESS \<noteq> ''Error: Table is full''"
  using execute_statement_never_table_full
          [of 1 "\<lparr>type = STATEMENT_SELECT, row = \<lparr>id_field = 0, username = [], email = []\<rparr>\<rparr>"
              empty_table empty_table EXECUTE_SUCCESS]
        execute_statement_select_empty
          [of 0 "\<lparr>id_field = 0, username = [], email = []\<rparr>"]
  by simp

subsection \<open>The page bound and the end of the leaf chain\<close>

text \<open>
  Claim C4 says that \<^verbatim>\<open>get_page(n)\<close> takes the fatal out-of-bounds branch if and only if
  \<open>n \<ge> 100\<close>.  The test in the code is \<^verbatim>\<open>page_num > TABLE_MAX_PAGES\<close>: the branch is taken
  if and only if \<open>n > 100\<close>, and \<^verbatim>\<open>get_page(100)\<close> goes on to slot 100 of the 100-slot array.
\<close>

theorem get_page_100_passes_bounds_check:
  "get_page pgr 100 \<noteq> Inl (Page_Out_Of_Bounds 100)
   \<and> get_page pgr 100 = Inl Page_Slot_Overrun
   \<and> (get_page pgr n = Inl (Page_Out_Of_Bounds n)) = (n > 100)"
  by (auto simp: get_page_def Let_def sizes split: option.splits)

text \<open>
  Claim C2 says that \<^verbatim>\<open>init_leaf_node\<close> leaves \<^verbatim>\<open>next_leaf\<close> equal to 0.  The code stores
  \<^verbatim>\<open>INVALID_PAGE_NUM\<close>, which \<^verbatim>\<open>cursor_advance\<close> does not take for the end of the chain:
  on the freshly initialized root of the empty table, advancing past the last cell moves
  the cursor to page \<^verbatim>\<open>0xFFFFFFFF\<close> and leaves \<^verbatim>\<open>end_of_table\<close> false.
\<close>

theorem init_leaf_node_next_leaf_invalid:
  "read32 (init_leaf_node node) leaf_node_next_leaf = 0xFFFFFFFF
   \<and> read32 (init_leaf_node node) leaf_node_next_leaf \<noteq> 0
   \<and> cursor_advance empty_table \<lparr>page_num = 0, cell_num = 0, end_of_table = False\<rparr>
       = Inr (\<lparr>page_num = 0xFFFFFFFF, cell_num = 0, end_of_table = False\<rparr>, empty_table)"
  by (simp add: init_leaf_node_fields offsets sizes cursor_advance_empty)

subsection \<open>Cells of a leaf\<close>

lemma leaf_cell_offset: "i \<le> 13 \<Longrightarrow> unat ((of_nat i :: u32) * 297) = 297 * i"
  by (simp add: unat_word_ariths unat_of_nat)

lemma word_nat_13:
  fixes c :: u32
  assumes "i \<le> 13"
  shows "(of_nat i = c) = (i = unat c)" "(of_nat i > c) = (i > unat c)"
    "((of_nat i :: u32) \<ge> 7) = (i \<ge> 7)" "(of_nat i :: u32) mod 7 = of_nat (i mod 7)"
    "0 < i \<Longrightarrow> (of_nat i :: u32) - 1 = of_nat (i - 1)"
  using assms
  by (auto simp: word_less_nat_alt word_le_nat_alt unat_of_nat word_unat_eq_iff unat_mod)

lemma deserialize_row_cong:
  assumes eq: "\<And>x. x < 293 \<Longrightarrow> p (a + x) = q (b + x)"
  shows "deserialize_row p a = deserialize_row q b"
proof -
  have i: "read32 p (a + unat ID_OFFSET) = read32 q (b + unat ID_OFFSET)"
    by (rule read32_cong) (simp add: eq sizes)
  have u: "load_bytes p (a + unat USERNAME_OFFSET) (unat USERNAME_SIZE)
         = load_bytes q (b + unat USERNAME_OFFSET) (unat USERNAME_SIZE)"
  proof (rule load_bytes_cong)
    fix x assume "x < unat USERNAME_SIZE"
    then show "p (a + unat USERNAME_OFFSET + x) = q (b + unat USERNAME_OFFSET + x)"
      using eq[of "4 + x"] by (simp add: sizes ac_simps)
  qed
  have e: "load_bytes p (a + unat EMAIL_OFFSET) (unat EMAIL_SIZE)
         = load_bytes q (b + unat EMAIL_OFFSET) (unat EMAIL_SIZE)"
  proof (rule load_bytes_cong)
    fix x assume "x < unat EMAIL_SIZE"
    then show "p (a + unat EMAIL_OFFSET + x) = q (b + unat EMAIL_OFFSET + x)"
      using eq[of "37 + x"] by (simp add: sizes ac_simps)
  qed
  show ?thesis
    by (simp add: deserialize_row_def i u e)
qed

lemma leaf_cell_at_cong:
  assumes eq: "\<And>x. x < 297 \<Longrightarrow> p (14 + 297 * j + x) = q (14 + 297 * k + x)"
    and j: "j \<le> 13" and k: "k \<le> 13"
  shows "leaf_cell_at p j = leaf_cell_at q k"
proof -
  have key: "read32 p (14 + 297 * j) = read32 q (14 + 297 * k)"
    by (rule read32_cong) (simp add: eq)
  have val: "deserialize_row p (18 + 297 * j) = deserialize_row q (18 + 297 * k)"
  proof (rule deserialize_row_cong)
    fix x :: nat assume "x < 293"
    then show "p (18 + 297 * j + x) = q (18 + 297 * k + x)"
      using eq[of "4 + x"] by (simp add: ac_simps)
  qed
  show ?thesis
    using key val by (simp add: leaf_cell_at_def offsets leaf_cell_offset j k)
qed

lemma leaf_cell_at_memmove_same:
  "j \<le> 13 \<Longrightarrow> k \<le> 13 \<Longrightarrow>
   leaf_cell_at (memmove d (14 + 297 * j) sp (14 + 297 * k) 297) j = leaf_cell_at sp k"
  by (rule leaf_cell_at_cong) (simp_all add: memmove_def)

lemma leaf_cell_at_memmove_other:
  assumes "m \<noteq> j" "m \<le> 13"
  shows "leaf_cell_at (memmove d (14 + 297 * j) sp s 297) m = leaf_cell_at d m"
proof (rule leaf_cell_at_cong)
  fix x :: nat assume "x < 297"
  then show "memmove d (14 + 297 * j) sp s 297 (14 + 297 * m + x) = d (14 + 297 * m + x)"
    using assms(1) by (cases "m < j") (simp_all add: memmove_def)
qed (use assms in simp_all)

lemma serialize_row_bytes:
  assumes "x < 293"
  shows "serialize_row val s d (s + x) = serialize_row val 0 (\<lambda>a. 0) x"
proof -
  consider "x < 4" | "4 \<le> x" "x < 37" | "37 \<le> x"
    by linarith
  then show ?thesis
  proof cases
    case 1
    then show ?thesis by (simp add: serialize_row_def strncpy_def write32_def sizes)
  next
    case 2
    then show ?thesis by (simp add: serialize_row_def strncpy_def write32_def sizes)
  next
    case 3
    then show ?thesis using assms by (simp add: serialize_row_def strncpy_def write32_def sizes)
  qed
qed

lemma serialize_row_outside:
  "y < s \<or> s + 293 \<le> y \<Longrightarrow> serialize_row val s d y = d y"
  by (auto simp: serialize_row_def strncpy_def write32_def sizes)

lemma new_cell_bytes_same:
  assumes "x < 297"
  shows "write32 (14 + 297 * j) key (serialize_row val (18 + 297 * j) d) (14 + 297 * j + x)
     = write32 14 key (serialize_row val 18 (\<lambda>a. 0)) (14 + x)"
proof (cases "x < 4")
  case True
  then show ?thesis by (simp add: write32_def)
next
  case False
  define y where "y = x - 4"
  have y: "x = 4 + y" "y < 293"
    using False assms by (simp_all add: y_def)
  have a: "14 + 297 * j + x = (18 + 297 * j) + y" and b: "14 + x = 18 + y"
    using y by simp_all
  show ?thesis
    unfolding a b using y(2)
    by (simp add: write32_def serialize_row_bytes)
qed

lemma new_cell_bytes_other:
  assumes "m \<noteq> j" "x < 297"
  shows "write32 (14 + 297 * j) key (serialize_row val (18 + 297 * j) d) (14 + 297 * m + x)
     = d (14 + 297 * m + x)"
  using assms by (cases "m < j") (simp_all add: write32_def serialize_row_outside)

lemma stored_row_at:
  "deserialize_row (write32 14 key (serialize_row val 18 (\<lambda>a. 0))) 18 = stored_row val"
  unfolding stored_row_def
proof (rule deserialize_row_cong)
  fix x :: nat assume "x < 293"
  then show "write32 14 key (serialize_row val 18 (\<lambda>a. 0)) (18 + x)
              = serialize_row val 0 (\<lambda>a. 0) (0 + x)"
    using serialize_row_bytes[of x val 18 "\<lambda>a. 0"] by (simp add: write32_def)
qed

lemma leaf_cell_at_new_same:
  assumes "j \<le> 13"
  shows "leaf_cell_at (write32 (14 + 297 * j) key (serialize_row val (18 + 297 * j) d)) j
           = (key, stored_row val)"
proof -
  have "leaf_cell_at (write32 (14 + 297 * j) key (serialize_row val (18 + 297 * j) d)) j
          = leaf_cell_at (write32 14 key (serialize_row val 18 (\<lambda>a. 0))) 0"
    by (rule leaf_cell_at_cong) (use assms new_cell_bytes_same in simp_all)
  also have "\<dots> = (key, stored_row val)"
    by (simp add: leaf_cell_at_def offsets read32_write32_same stored_row_at)
  finally show ?thesis .
qed

lemma leaf_cell_at_new_other:
  assumes "m \<noteq> j" "m \<le> 13"
  shows "leaf_cell_at (write32 (14 + 297 * j) key (serialize_row val (18 + 297 * j) d)) m
           = leaf_cell_at d m"
  by (rule leaf_cell_at_cong) (use assms new_cell_bytes_other in simp_all)

lemma leaf_cell_at_header_write:
  assumes "a + 4 \<le> 14" "m \<le> 13"
  shows "leaf_cell_at (write32 a v d) m = leaf_cell_at d m"
  by (rule leaf_cell_at_cong) (use assms in \<open>simp_all add: write32_def\<close>)

subsection \<open>Writes through node pointers\<close>

lemma node_update_simps:
  "pages (node_update n f pgr) = (pages pgr)(n := map_option f (pages pgr n))"
  "num_pages (node_update n f pgr) = num_pages pgr"
  "file_length (node_update n f pgr) = file_length pgr"
  "malloc_page (node_update n f pgr) = malloc_page pgr"
  "read_page (node_update n f pgr) = read_page pgr"
  by (simp_all add: node_update_def)

lemma node_update_twice:
  "node_update n f (node_update n g pgr) = node_update n (\<lambda>d. f (g d)) pgr"
  by (cases "pages pgr n") (simp_all add: node_update_def)

lemma leaf_node_split_step_eq:
  assumes "i \<le> 13"
  shows "leaf_node_split_step cursor key val old new i pgr =
     node_update (if 7 \<le> i then new else old)
       (if i = unat (cell_num cursor)
        then (\<lambda>d. write32 (14 + 297 * (i mod 7)) key (serialize_row val (18 + 297 * (i mod 7)) d))
        else if unat (cell_num cursor) < i
        then (\<lambda>d. memmove d (14 + 297 * (i mod 7)) (node_at pgr old) (14 + 297 * (i - 1)) 297)
        else (\<lambda>d. memmove d (14 + 297 * (i mod 7)) (node_at pgr old) (14 + 297 * i) 297)) pgr"
proof -
  let ?c = "cell_num cursor"
  have m: "i mod 7 \<le> 13" by simp
  have i1: "i - 1 \<le> 13" using assms by simp
  have w: "(of_nat i = ?c) = (i = unat ?c)" "(?c < of_nat i) = (unat ?c < i)"
    "((7::u32) \<le> of_nat i) = (7 \<le> i)" "(of_nat i :: u32) mod 7 = of_nat (i mod 7)"
    using word_nat_13[OF assms] by simp_all
  have off: "leaf_node_cell (of_nat (i mod 7)) = 14 + 297 * (i mod 7)"
    "leaf_node_key (of_nat (i mod 7)) = 14 + 297 * (i mod 7)"
    "leaf_node_value (of_nat (i mod 7)) = 18 + 297 * (i mod 7)"
    "leaf_node_cell (of_nat i) = 14 + 297 * i"
    by (simp_all add: offsets leaf_cell_offset[OF m] leaf_cell_offset[OF assms])
  have off1: "leaf_node_cell (of_nat (i - 1)) = 14 + 297 * (i - 1)"
    using leaf_cell_offset[OF i1] by (simp add: offsets)
  consider (eq) "i = unat ?c" | (gt) "unat ?c < i" | (lt) "i < unat ?c"
    by linarith
  then show ?thesis
  proof cases
    case eq
    have t: "(of_nat i = ?c) = True" "(i = unat ?c) = True"
      using eq w(1) by simp_all
    show ?thesis
      by (simp only: leaf_node_split_step_def Let_def sizes w(3,4) off node_update_twice
          t if_True)
  next
    case gt
    then have pos: "0 < i" by simp
    have ne: "(of_nat i = ?c) = False" "(?c < of_nat i) = True" "(i = unat ?c) = False"
      "(unat ?c < i) = True"
      using gt w(1,2) by simp_all
    have sub: "(of_nat i :: u32) - 1 = of_nat (i - 1)"
      using word_nat_13(5)[OF assms pos] .
    show ?thesis
      by (simp only: leaf_node_split_step_def Let_def sizes w(3,4) off off1 ne sub if_True if_False)
  next
    case lt
    have ne: "(of_nat i = ?c) = False" "(?c < of_nat i) = False" "(i = unat ?c) = False"
      "(unat ?c < i) = False"
      using lt w(1,2) by simp_all
    show ?thesis
      by (simp only: leaf_node_split_step_def Let_def sizes w(3,4) off ne if_True if_False)
  qed
qed

subsection \<open>Splitting a leaf\<close>

lemma split_writer_header: "a < 14 \<Longrightarrow> split_writer old c key val i d a = d a"
  by (simp add: split_writer_def write32_def serialize_row_outside memmove_def)

lemma split_writer_same:
  assumes "i \<le> 13" "c \<le> 13"
  shows "leaf_cell_at (split_writer old c key val i d) (i mod 7) =
           (if i = c then (key, stored_row val)
            else if c < i then leaf_cell_at old (i - 1) else leaf_cell_at old i)"
proof -
  have m: "i mod 7 \<le> 13" by simp
  have i1: "i - 1 \<le> 13" using assms by simp
  show ?thesis
    using assms m i1
    by (simp add: split_writer_def leaf_cell_at_new_same leaf_cell_at_memmove_same)
qed

lemma split_writer_other:
  assumes "m \<le> 13" "m \<noteq> i mod 7"
  shows "leaf_cell_at (split_writer old c key val i d) m = leaf_cell_at d m"
  using assms unfolding split_writer_def
  by (auto simp: leaf_cell_at_new_other leaf_cell_at_memmove_other)

lemma leaf_node_split_step_writer:
  assumes "i \<le> 13" "pages pgr old = Some ok"
  shows "leaf_node_split_step cursor key val old new i pgr =
           node_update (if 7 \<le> i then new else old)
             (split_writer ok (unat (cell_num cursor)) key val i) pgr"
  by (simp add: leaf_node_split_step_eq[OF assms(1)] split_writer_def node_at_loaded[OF assms(2)])

lemma node_update_two_pages:
  assumes "old \<noteq> new"
  shows "node_update old f (pgr\<lparr>pages := (pages pgr)(old := Some a, new := Some b)\<rparr>)
           = pgr\<lparr>pages := (pages pgr)(old := Some (f a), new := Some b)\<rparr>"
    and "node_update new f (pgr\<lparr>pages := (pages pgr)(old := Some a, new := Some b)\<rparr>)
           = pgr\<lparr>pages := (pages pgr)(old := Some a, new := Some (f b))\<rparr>"
  using assms by (auto simp: node_update_def fun_eq_iff)

lemma split_loop:
  assumes L: "pages pgr8 old = Some o8" and N: "pages pgr8 new = Some n8" and ne: "old \<noteq> new"
    and c: "unat (cell_num cursor) \<le> 13" and n: "n \<le> 14"
  shows "\<exists>ok nk.
      fold (leaf_node_split_step cursor key val old new) (rev [14 - n..<14]) pgr8
        = pgr8\<lparr>pages := (pages pgr8)(old := Some ok, new := Some nk)\<rparr>
      \<and> (\<forall>a<14. ok a = o8 a \<and> nk a = n8 a)
      \<and> (\<forall>j<13. j < 14 - n \<or> 7 \<le> j \<longrightarrow> leaf_cell_at ok j = leaf_cell_at o8 j)
      \<and> (\<forall>j<14. 14 - n \<le> j \<longrightarrow>
            (if 7 \<le> j then leaf_cell_at nk (j - 7) else leaf_cell_at ok j)
              = split_cell o8 (unat (cell_num cursor)) key val j)"
  using n
proof (induction n)
  case 0
  have eq0: "pgr8 = pgr8\<lparr>pages := (pages pgr8)(old := Some o8, new := Some n8)\<rparr>"
    using L N by (simp add: fun_upd_idem)
  have f0: "fold (leaf_node_split_step cursor key val old new) (rev [14 - 0..<14]) pgr8 = pgr8"
    by simp
  show ?case
  proof (rule exI[of _ o8], rule exI[of _ n8], intro conjI)
    show "fold (leaf_node_split_step cursor key val old new) (rev [14 - 0..<14]) pgr8
            = pgr8\<lparr>pages := (pages pgr8)(old := Some o8, new := Some n8)\<rparr>"
      unfolding f0 by (rule eq0)
  qed simp_all
next
  case (Suc n)
  let ?c = "unat (cell_num cursor)"
  let ?step = "leaf_node_split_step cursor key val old new"
  define i where "i = 13 - n"
  have i13: "i \<le> 13" and iS: "14 - Suc n = i" and in': "14 - n = Suc i"
    using Suc.prems by (simp_all add: i_def)
  have n14: "n \<le> 14" using Suc.prems by simp
  from Suc.IH[OF n14] obtain ok nk where
    st: "fold ?step (rev [14 - n..<14]) pgr8
           = pgr8\<lparr>pages := (pages pgr8)(old := Some ok, new := Some nk)\<rparr>"
    and hd: "\<forall>a<14. ok a = o8 a \<and> nk a = n8 a"
    and un: "\<forall>j<13. j < 14 - n \<or> 7 \<le> j \<longrightarrow> leaf_cell_at ok j = leaf_cell_at o8 j"
    and dn: "\<forall>j<14. 14 - n \<le> j \<longrightarrow>
               (if 7 \<le> j then leaf_cell_at nk (j - 7) else leaf_cell_at ok j)
                 = split_cell o8 ?c key val j"
    by blast
  let ?W = "split_writer ok ?c key val i"
  define ok' where "ok' = (if 7 \<le> i then ok else ?W ok)"
  define nk' where "nk' = (if 7 \<le> i then ?W nk else nk)"
  have lst: "rev [i..<14] = rev [Suc i..<14] @ [i]"
    using i13 by (simp add: upt_conv_Cons)
  have pk: "pages (pgr8\<lparr>pages := (pages pgr8)(old := Some ok, new := Some nk)\<rparr>) old = Some ok"
    using ne by simp
  have fold': "fold ?step (rev [14 - Suc n..<14]) pgr8
                 = pgr8\<lparr>pages := (pages pgr8)(old := Some ok', new := Some nk')\<rparr>"
    unfolding iS lst fold_append comp_apply in'[symmetric] st
    by (simp add: leaf_node_split_step_writer[OF i13 pk] node_update_two_pages[OF ne]
        ok'_def nk'_def)
  have Ws: "\<And>d. leaf_cell_at (?W d) (i mod 7) = split_cell o8 ?c key val i"
  proof -
    fix d
    have a: "c < i \<Longrightarrow> leaf_cell_at ok (i - 1) = leaf_cell_at o8 (i - 1)" for c
      using un i13 in' by simp
    have b: "i < ?c \<Longrightarrow> leaf_cell_at ok i = leaf_cell_at o8 i"
      using un c in' by simp
    show "leaf_cell_at (?W d) (i mod 7) = split_cell o8 ?c key val i"
      using a[of ?c] b by (auto simp: split_writer_same[OF i13 c] split_cell_def)
  qed
  have hd': "\<forall>a<14. ok' a = o8 a \<and> nk' a = n8 a"
    using hd by (simp add: ok'_def nk'_def split_writer_header)
  have un': "\<forall>j<13. j < i \<or> 7 \<le> j \<longrightarrow> leaf_cell_at ok' j = leaf_cell_at o8 j"
  proof (intro allI impI)
    fix j assume j: "j < 13" and h: "j < i \<or> 7 \<le> j"
    have old_eq: "leaf_cell_at ok j = leaf_cell_at o8 j"
      using un j h in' by auto
    show "leaf_cell_at ok' j = leaf_cell_at o8 j"
    proof (cases "7 \<le> i")
      case True
      then show ?thesis by (simp add: ok'_def old_eq)
    next
      case False
      then have "j \<noteq> i mod 7" using h by auto
      then show ?thesis
        using False j by (simp add: ok'_def old_eq split_writer_other)
    qed
  qed
  have dn': "\<forall>j<14. i \<le> j \<longrightarrow>
               (if 7 \<le> j then leaf_cell_at nk' (j - 7) else leaf_cell_at ok' j)
                 = split_cell o8 ?c key val j"
  proof (intro allI impI)
    fix j assume j: "j < 14" and h: "i \<le> j"
    show "(if 7 \<le> j then leaf_cell_at nk' (j - 7) else leaf_cell_at ok' j)
            = split_cell o8 ?c key val j"
    proof (cases "j = i")
      case True
      show ?thesis
      proof (cases "7 \<le> i")
        case True
        then have "i mod 7 = i - 7" using i13 by (simp add: mod_if)
        then show ?thesis
          using True \<open>j = i\<close> Ws[of nk] by (simp add: nk'_def)
      next
        case False
        then have "i mod 7 = i" by simp
        then show ?thesis
          using False \<open>j = i\<close> Ws[of ok] by (simp add: ok'_def)
      qed
    next
      case False
      then have gt: "Suc i \<le> j" using h by simp
      have prev: "(if 7 \<le> j then leaf_cell_at nk (j - 7) else leaf_cell_at ok j)
                    = split_cell o8 ?c key val j"
        using dn j gt in' by simp
      show ?thesis
      proof (cases "7 \<le> j")
        case True
        have "leaf_cell_at nk' (j - 7) = leaf_cell_at nk (j - 7)"
        proof (cases "7 \<le> i")
          case True
          then have "i mod 7 = i - 7" using i13 by (simp add: mod_if)
          then have "j - 7 \<noteq> i mod 7" using \<open>7 \<le> j\<close> True \<open>j \<noteq> i\<close> by simp
          then show ?thesis
            using True j by (simp add: nk'_def split_writer_other)
        next
          case False
          then show ?thesis by (simp add: nk'_def)
        qed
        then show ?thesis using prev True by simp
      next
        case False
        then have i7: "\<not> 7 \<le> i" using gt by simp
        then have "j \<noteq> i mod 7" using \<open>j \<noteq> i\<close> by simp
        then have "leaf_cell_at ok' j = leaf_cell_at ok j"
          using i7 j by (simp add: ok'_def split_writer_other)
        then show ?thesis using prev False by simp
      qed
    qed
  qed
  show ?case
    unfolding iS using fold'[unfolded iS] hd' un' dn' by blast
qed

lemma get_page_cases:
  assumes "n < TABLE_MAX_PAGES" and "read_page pgr n (malloc_page pgr n) \<noteq> None"
  obtains p0 pgr' where "get_page pgr n = Inr pgr'" "pages pgr' = (pages pgr)(n := Some p0)"
    "num_pages pgr' = (if pages pgr n = None \<and> num_pages pgr \<le> n then n + 1 else num_pages pgr)"
    "malloc_page pgr' = malloc_page pgr" "read_page pgr' = read_page pgr"
    "file_length pgr' = file_length pgr"
proof (cases "pages pgr n")
  case (Some p)
  have "get_page pgr n = Inr pgr"
    by (rule get_page_loaded[OF Some assms(1)])
  moreover have "pages pgr = (pages pgr)(n := Some p)"
    using Some by (simp add: fun_upd_idem)
  ultimately show ?thesis
    using that[of pgr p] Some by simp
next
  case None
  from assms(2) obtain b where b: "read_page pgr n (malloc_page pgr n) = Some b"
    by blast
  define p0 where
    "p0 = (if n \<le> file_length pgr div PAGE_SIZE + (if file_length pgr mod PAGE_SIZE \<noteq> 0 then 1 else 0)
           then b else malloc_page pgr n)"
  define pgr' where
    "pgr' = pgr\<lparr>pages := (pages pgr)(n := Some p0),
                num_pages := (if n \<ge> num_pages pgr then n + 1 else num_pages pgr)\<rparr>"
  have "get_page pgr n = Inr pgr'"
    using assms(1) None b by (auto simp: get_page_def Let_def pgr'_def p0_def)
  then show ?thesis
    using that[of pgr' p0] None by (simp add: pgr'_def)
qed

lemma split_cell_nth:
  assumes "length cells = 13" "c \<le> 13" "j < 14"
    and "\<And>i. i < 13 \<Longrightarrow> cells ! i = leaf_cell_at old i"
  shows "(take c cells @ [(key, stored_row val)] @ drop c cells) ! j = split_cell old c key val j"
  using assms by (auto simp: split_cell_def nth_append min_def)

lemma leaf_node_split_cells_result:
  assumes loaded: "pages (pager table) (page_num cursor) = Some o0"
    and old_b: "page_num cursor < TABLE_MAX_PAGES"
    and new_b: "num_pages (pager table) < TABLE_MAX_PAGES"
    and ne: "page_num cursor \<noteq> num_pages (pager table)"
    and leaf: "get_node_type o0 = NODE_LEAF"
    and full: "read32 o0 leaf_node_num_cells = LEAF_NODE_MAX_CELLS"
    and pos: "cell_num cursor \<le> LEAF_NODE_MAX_CELLS"
    and rd: "read_page (pager table) (num_pages (pager table))
               (malloc_page (pager table) (num_pages (pager table))) \<noteq> None"
  shows "\<exists>pgr' o' n'.
      leaf_node_split_cells (Suc fuel) table cursor key val
        = Inr (num_pages (pager table), read32 o0 (leaf_node_key 12), pgr')
    \<and> pages pgr' (page_num cursor) = Some o' \<and> pages pgr' (num_pages (pager table)) = Some n'
    \<and> (\<forall>m. m \<noteq> page_num cursor \<and> m \<noteq> num_pages (pager table)
            \<longrightarrow> pages pgr' m = pages (pager table) m)
    \<and> num_pages pgr' = num_pages (pager table) + 1
    \<and> read_page pgr' = read_page (pager table) \<and> malloc_page pgr' = malloc_page (pager table)
    \<and> file_length pgr' = file_length (pager table)
    \<and> (\<forall>a<6. o' a = o0 a) \<and> read32 o' 6 = 7 \<and> read32 o' 10 = num_pages (pager table)
    \<and> get_node_type n' = NODE_LEAF \<and> \<not> is_node_root n' \<and> read32 n' 2 = read32 o0 2
    \<and> read32 n' 6 = 7 \<and> read32 n' 10 = read32 o0 10
    \<and> (\<forall>j<7. leaf_cell_at o' j = split_cell o0 (unat (cell_num cursor)) key val j)
    \<and> (\<forall>j<7. leaf_cell_at n' j = split_cell o0 (unat (cell_num cursor)) key val (7 + j))"
proof -
  let ?pgr = "pager table"
  let ?old = "page_num cursor"
  let ?new = "num_pages (pager table)"
  let ?c = "unat (cell_num cursor)"
  have c13: "?c \<le> 13"
    using pos by (simp add: sizes word_le_nat_alt)
  have g1: "get_page ?pgr ?old = Inr ?pgr"
    by (rule get_page_loaded[OF loaded old_b])
  have mk: "get_node_max_key (Suc fuel) ?pgr ?old = Inr (read32 o0 (leaf_node_key 12), ?pgr)"
    by (simp add: node_at_loaded[OF loaded] leaf full sizes)
  define pgr3 where "pgr3 = ?pgr\<lparr>num_pages := ?new + 1\<rparr>"
  have rd3: "read_page pgr3 ?new (malloc_page pgr3 ?new) \<noteq> None"
    using rd by (simp add: pgr3_def)
  from get_page_cases[OF new_b rd3] obtain p0 pgr4 where
    g4: "get_page pgr3 ?new = Inr pgr4" and p4: "pages pgr4 = (pages pgr3)(?new := Some p0)"
    and np4: "num_pages pgr4 =
      (if pages pgr3 ?new = None \<and> num_pages pgr3 \<le> ?new then ?new + 1 else num_pages pgr3)"
    and host4: "read_page pgr4 = read_page pgr3" "malloc_page pgr4 = malloc_page pgr3"
      "file_length pgr4 = file_length pgr3"
    by blast
  have np4': "num_pages pgr4 = ?new + 1"
    using np4 by (simp add: pgr3_def)
  have p4o: "pages pgr4 ?old = Some o0" and p4n: "pages pgr4 ?new = Some p0"
    and p4m: "\<And>m. m \<noteq> ?new \<Longrightarrow> pages pgr4 m = pages ?pgr m"
    using loaded ne by (simp_all add: p4 pgr3_def)
  define pgr5 where "pgr5 = node_update ?new init_leaf_node pgr4"
  define pgr6 where
    "pgr6 = node_update ?new (write32 node_parent (read32 (node_at pgr5 ?old) node_parent)) pgr5"
  define pgr7 where
    "pgr7 = node_update ?new
              (write32 leaf_node_next_leaf (read32 (node_at pgr6 ?old) leaf_node_next_leaf)) pgr6"
  define pgr8 where "pgr8 = node_update ?old (write32 leaf_node_next_leaf ?new) pgr7"
  define pgr9 where
    "pgr9 = fold (leaf_node_split_step cursor key val ?old ?new)
              (rev [0 ..< unat LEAF_NODE_MAX_CELLS + 1]) pgr8"
  define pgr10 where
    "pgr10 = node_update ?old (write32 leaf_node_num_cells LEAF_NODE_LEFT_SPLIT_COUNT) pgr9"
  define pgr11 where
    "pgr11 = node_update ?new (write32 leaf_node_num_cells LEAF_NODE_RIGHT_SPLIT_COUNT) pgr10"
  have res: "leaf_node_split_cells (Suc fuel) table cursor key val
               = Inr (?new, read32 o0 (leaf_node_key 12), pgr11)"
    unfolding leaf_node_split_cells_def g1 bind_f_simps Let_def node_at_loaded[OF loaded] mk
      get_unused_page_num_def prod.case pgr3_def[symmetric] g4
    using full pos
    by (simp add: pgr11_def pgr10_def pgr9_def pgr8_def pgr7_def pgr6_def pgr5_def)
  define n8 where
    "n8 = write32 10 (read32 o0 10) (write32 2 (read32 o0 2) (init_leaf_node p0))"
  define o8 where "o8 = write32 10 ?new o0"
  have p5: "pages pgr5 ?old = Some o0" "pages pgr5 ?new = Some (init_leaf_node p0)"
    using ne p4o p4n by (simp_all add: pgr5_def node_update_simps)
  have p6: "pages pgr6 ?old = Some o0"
    "pages pgr6 ?new = Some (write32 2 (read32 o0 2) (init_leaf_node p0))"
    using ne p5 by (simp_all add: pgr6_def node_update_simps node_at_loaded[OF p5(1)] offsets)
  have p7: "pages pgr7 ?old = Some o0" "pages pgr7 ?new = Some n8"
    using ne p6
    by (simp_all add: pgr7_def node_update_simps node_at_loaded[OF p6(1)] offsets n8_def)
  have p8: "pages pgr8 ?old = Some o8" "pages pgr8 ?new = Some n8"
    using ne p7 by (simp_all add: pgr8_def node_update_simps offsets o8_def)
  have p8m: "\<And>m. m \<noteq> ?old \<Longrightarrow> m \<noteq> ?new \<Longrightarrow> pages pgr8 m = pages ?pgr m"
    using p4m
    by (simp add: pgr8_def pgr7_def pgr6_def pgr5_def node_update_simps)
  have np8: "num_pages pgr8 = ?new + 1"
    using np4' by (simp add: pgr8_def pgr7_def pgr6_def pgr5_def node_update_simps)
  have up: "rev [0 ..< unat LEAF_NODE_MAX_CELLS + 1] = rev [14 - 14 ..< 14]"
    by (simp add: sizes)
  from split_loop[OF p8 ne c13, of 14 key val] obtain ok nk where
    l9: "pgr9 = pgr8\<lparr>pages := (pages pgr8)(?old := Some ok, ?new := Some nk)\<rparr>"
    and hd: "\<forall>a<14. ok a = o8 a \<and> nk a = n8 a"
    and dn: "\<forall>j<14. (if 7 \<le> j then leaf_cell_at nk (j - 7) else leaf_cell_at ok j)
                 = split_cell o8 ?c key val j"
    unfolding pgr9_def up by auto
  define o' where "o' = write32 6 7 ok"
  define n' where "n' = write32 6 7 nk"
  have p11: "pages pgr11 ?old = Some o'" "pages pgr11 ?new = Some n'"
    using ne by (simp_all add: pgr11_def pgr10_def l9 node_update_simps offsets sizes o'_def n'_def)
  have p11m: "\<And>m. m \<noteq> ?old \<Longrightarrow> m \<noteq> ?new \<Longrightarrow> pages pgr11 m = pages ?pgr m"
    using p8m by (simp add: pgr11_def pgr10_def l9 node_update_simps)
  have np11: "num_pages pgr11 = ?new + 1"
    using np8 by (simp add: pgr11_def pgr10_def l9 node_update_simps)
  have host11: "read_page pgr11 = read_page ?pgr" "malloc_page pgr11 = malloc_page ?pgr"
    "file_length pgr11 = file_length ?pgr"
    using host4
    by (simp_all add: pgr11_def pgr10_def l9 pgr8_def pgr7_def pgr6_def pgr5_def
        node_update_simps pgr3_def)
  have r32: "\<And>p q b. b + 4 \<le> 14 \<Longrightarrow> \<forall>a<14. p a = q a \<Longrightarrow> read32 p b = read32 q b"
    by (rule read32_cong) simp
  have ok_hd: "read32 ok 10 = read32 o8 10" "read32 nk 2 = read32 n8 2"
    "read32 nk 10 = read32 n8 10"
    using hd by (auto intro!: r32)
  have ty: "get_node_type nk = get_node_type n8" "is_node_root nk = is_node_root n8"
    using hd by (simp_all add: get_node_type_def is_node_root_def read8_def layout_defs)
  have cells_o8: "\<And>j. j < 13 \<Longrightarrow> leaf_cell_at o8 j = leaf_cell_at o0 j"
    by (simp add: o8_def leaf_cell_at_header_write)
  have sc: "\<And>j. j < 14 \<Longrightarrow> split_cell o8 ?c key val j = split_cell o0 ?c key val j"
    using c13 by (auto simp: split_cell_def cells_o8)
  have A: "\<forall>a<6. o' a = o0 a"
    using hd by (simp add: o'_def o8_def write32_def)
  have B: "read32 o' 6 = 7" "read32 n' 6 = 7"
    by (simp_all add: o'_def n'_def read32_simps)
  have C: "read32 o' 10 = ?new"
    using ok_hd(1) by (simp add: o'_def o8_def read32_simps)
  have D: "get_node_type n' = NODE_LEAF" "\<not> is_node_root n'"
    using ty
    by (simp_all add: n'_def n8_def node_type_simps is_root_simps init_leaf_node_fields)
  have E: "read32 n' 2 = read32 o0 2" "read32 n' 10 = read32 o0 10"
    using ok_hd(2,3) by (simp_all add: n'_def n8_def read32_simps)
  have F: "\<forall>j<7. leaf_cell_at o' j = split_cell o0 ?c key val j"
  proof (intro allI impI)
    fix j :: nat assume j: "j < 7"
    then have "leaf_cell_at ok j = split_cell o8 ?c key val j"
      using dn[rule_format, of j] by simp
    then show "leaf_cell_at o' j = split_cell o0 ?c key val j"
      using j by (simp add: o'_def leaf_cell_at_header_write sc)
  qed
  have G: "\<forall>j<7. leaf_cell_at n' j = split_cell o0 ?c key val (7 + j)"
  proof (intro allI impI)
    fix j :: nat assume j: "j < 7"
    then have "leaf_cell_at nk j = split_cell o8 ?c key val (7 + j)"
      using dn[rule_format, of "7 + j"] by simp
    then show "leaf_cell_at n' j = split_cell o0 ?c key val (7 + j)"
      using j by (simp add: n'_def leaf_cell_at_header_write sc)
  qed
  show ?thesis
    using res p11 p11m np11 host11 A B C D E F G by blast
qed

lemma leaf_cells_7:
  assumes "read32 p leaf_node_num_cells = 7"
  shows "leaf_cells p = map (leaf_cell_at p) [0..<7]"
  using assms by (simp add: leaf_cells_def)

lemma leaf_cells_13:
  assumes "read32 p leaf_node_num_cells = LEAF_NODE_MAX_CELLS"
  shows "leaf_cells p = map (leaf_cell_at p) [0..<13]"
  using assms by (simp add: leaf_cells_def sizes)

lemma sorted_wrt_halves:
  assumes "sorted_wrt (<) (map fst (xs @ ys))"
  shows "sorted_wrt (<) (map fst xs) \<and> sorted_wrt (<) (map fst ys)
         \<and> (\<forall>a \<in> set (map fst xs). \<forall>b \<in> set (map fst ys). a < b)"
  using assms by (auto simp: sorted_wrt_append)



lemma full_leaf_table_fields:
  "pages (pager full_leaf_table) 0 = Some full_leaf"
  "num_pages (pager full_leaf_table) = 1"
  "read_page (pager full_leaf_table) n b = Some b"
  by (simp_all add: full_leaf_table_def)

text \<open>
  The state in which \<^verbatim>\<open>leaf_node_split_and_insert\<close> has updated the two cell counts,
  before it creates a new root or updates the parent: the page of the old leaf holds the
  first 7 of the 14 logical cells and the new leaf the last 7.
\<close>

lemma leaf_node_split_cells_redistributes:
  assumes "pages (pager table) (page_num cursor) = Some old_node"
    and "page_num cursor < TABLE_MAX_PAGES"
    and "num_pages (pager table) < TABLE_MAX_PAGES"
    and "page_num cursor \<noteq> num_pages (pager table)"
    and "read_page (pager table) (num_pages (pager table))
           (malloc_page (pager table) (num_pages (pager table))) \<noteq> None"
    and "get_node_type old_node = NODE_LEAF"
    and "read32 old_node leaf_node_num_cells = LEAF_NODE_MAX_CELLS"
    and "cell_num cursor \<le> LEAF_NODE_MAX_CELLS"
  shows "\<exists>old_max pgr' old' new'.
      leaf_node_split_cells (Suc fuel) table cursor key val
        = Inr (num_pages (pager table), old_max, pgr')
    \<and> pages pgr' (page_num cursor) = Some old'
    \<and> pages pgr' (num_pages (pager table)) = Some new'
    \<and> read32 old' leaf_node_num_cells = 7 \<and> read32 new' leaf_node_num_cells = 7
    \<and> length (leaf_cells old') = 7 \<and> length (leaf_cells new') = 7
    \<and> leaf_cells old' @ leaf_cells new'
        = take (unat (cell_num cursor)) (leaf_cells old_node) @ [(key, stored_row val)]
          @ drop (unat (cell_num cursor)) (leaf_cells old_node)
    \<and> (sorted_wrt (<) (map fst (take (unat (cell_num cursor)) (leaf_cells old_node)
            @ [(key, stored_row val)] @ drop (unat (cell_num cursor)) (leaf_cells old_node)))
        \<longrightarrow> sorted_wrt (<) (map fst (leaf_cells old'))
          \<and> sorted_wrt (<) (map fst (leaf_cells new'))
          \<and> (\<forall>a \<in> set (map fst (leaf_cells old')). \<forall>b \<in> set (map fst (leaf_cells new')). a < b))
    \<and> read32 new' leaf_node_next_leaf = read32 old_node leaf_node_next_leaf
    \<and> read32 old' leaf_node_next_leaf = num_pages (pager table)
    \<and> get_node_type old' = NODE_LEAF \<and> get_node_type new' = NODE_LEAF"
proof -
  let ?c = "unat (cell_num cursor)"
  let ?x = "(key, stored_row val)"
  let ?m = "take ?c (leaf_cells old_node) @ [?x] @ drop ?c (leaf_cells old_node)"
  from leaf_node_split_cells_result[OF assms(1,2,3,4,6,7,8,5), of fuel key val]
  obtain pgr' o' n' where
    res: "leaf_node_split_cells (Suc fuel) table cursor key val
            = Inr (num_pages (pager table), read32 old_node (leaf_node_key 12), pgr')"
    and pg: "pages pgr' (page_num cursor) = Some o'" "pages pgr' (num_pages (pager table)) = Some n'"
    and hdo: "\<forall>a<6. o' a = old_node a"
    and nc: "read32 o' 6 = 7" "read32 n' 6 = 7"
    and nl: "read32 o' 10 = num_pages (pager table)" "read32 n' 10 = read32 old_node 10"
    and ty: "get_node_type n' = NODE_LEAF"
    and co: "\<forall>j<7. leaf_cell_at o' j = split_cell old_node ?c key val j"
    and cn: "\<forall>j<7. leaf_cell_at n' j = split_cell old_node ?c key val (7 + j)"
    by blast
  have c13: "?c \<le> 13"
    using assms(8) by (simp add: sizes word_le_nat_alt)
  have len: "length (leaf_cells old_node) = 13"
    by (simp add: leaf_cells_13[OF assms(7)])
  have nth: "\<And>j. j < 14 \<Longrightarrow> ?m ! j = split_cell old_node ?c key val j"
    by (rule split_cell_nth[OF len c13]) (simp_all add: leaf_cells_13[OF assms(7)])
  have lm: "length ?m = 14"
    using len c13 by simp
  have lo: "leaf_cells o' = map (leaf_cell_at o') [0..<7]"
    and ln: "leaf_cells n' = map (leaf_cell_at n') [0..<7]"
    using nc by (simp_all add: leaf_cells_7 offsets)
  have cat: "leaf_cells o' @ leaf_cells n' = ?m"
  proof (rule nth_equalityI)
    show "length (leaf_cells o' @ leaf_cells n') = length ?m"
      using lm by (simp add: lo ln)
  next
    fix j assume "j < length (leaf_cells o' @ leaf_cells n')"
    then have j: "j < 14" by (simp add: lo ln)
    show "(leaf_cells o' @ leaf_cells n') ! j = ?m ! j"
    proof (cases "j < 7")
      case True
      then show ?thesis
        using co nth[OF j] by (simp add: lo ln nth_append)
    next
      case False
      then have "j - 7 < 7" "7 + (j - 7) = j" using j by simp_all
      then show ?thesis
        using cn[rule_format, of "j - 7"] nth[OF j] False by (simp add: lo ln nth_append)
    qed
  qed
  have tyo: "get_node_type o' = NODE_LEAF"
    using hdo assms(6) by (simp add: get_node_type_def read8_def layout_defs)
  have srt: "sorted_wrt (<) (map fst ?m) \<longrightarrow>
       sorted_wrt (<) (map fst (leaf_cells o')) \<and> sorted_wrt (<) (map fst (leaf_cells n'))
       \<and> (\<forall>a \<in> set (map fst (leaf_cells o')). \<forall>b \<in> set (map fst (leaf_cells n')). a < b)"
    using sorted_wrt_halves[of "leaf_cells o'" "leaf_cells n'"] unfolding cat by blast
  have l7: "length (leaf_cells o') = 7" "length (leaf_cells n') = 7"
    by (simp_all add: lo ln)
  show ?thesis
    using res pg nc nl ty tyo cat srt l7 unfolding offsets by blast
qed


subsection \<open>The binary search of a leaf\<close>

lemma small_words:
  fixes l h :: nat
  assumes "l \<le> 13" "h \<le> 13"
  shows "((of_nat l :: u32) = of_nat h) = (l = h)"
    and "((of_nat l :: u32) + of_nat h) div 2 = of_nat ((l + h) div 2)"
    and "(of_nat l :: u32) + 1 = of_nat (l + 1)"
    and "((of_nat l :: u32) < of_nat h) = (l < h)"
    and "((of_nat l :: u32) \<le> of_nat h) = (l \<le> h)"
    and "unat (of_nat l :: u32) = l"
  using assms
  by (auto simp: word_unat_eq_iff unat_div unat_word_ariths unat_of_nat word_less_nat_alt
      word_le_nat_alt)

lemma leaf_key_at: "fst (leaf_cell_at node i) = read32 node (leaf_node_key (of_nat i))"
  by (simp add: leaf_cell_at_def)

lemma leaf_node_find_loop_above:
  assumes "\<forall>i. l \<le> i \<and> i < h \<longrightarrow> fst (leaf_cell_at node i) < key"
    and "l \<le> h" "h \<le> 13" "h - l < fuel"
  shows "leaf_node_find_loop fuel node key (of_nat l) (of_nat h) = Inr (of_nat h)"
  using assms
proof (induction fuel arbitrary: l)
  case 0
  then show ?case by simp
next
  case (Suc fuel)
  show ?case
  proof (cases "l = h")
    case True
    then show ?thesis by simp
  next
    case False
    define m where "m = (l + h) div 2"
    have m: "l \<le> m" "m < h" "m \<le> 13" "m + 1 \<le> h" "m + 1 \<le> 13"
      using False Suc.prems by (simp_all add: m_def)
    have l13: "l \<le> 13" using Suc.prems by simp
    have lt: "read32 node (leaf_node_key (of_nat m)) < key"
      using Suc.prems(1) m by (simp add: leaf_key_at)
    have ih: "leaf_node_find_loop fuel node key (of_nat (m + 1)) (of_nat h) = Inr (of_nat h)"
    proof (rule Suc.IH)
      show "\<forall>i. m + 1 \<le> i \<and> i < h \<longrightarrow> fst (leaf_cell_at node i) < key"
        using Suc.prems(1) m by simp
      show "m + 1 \<le> h" by (rule m(4))
      show "h \<le> 13" by (rule Suc.prems(3))
      show "h - (m + 1) < fuel" using Suc.prems(4) m by simp
    qed
    have ne: "(of_nat h :: u32) \<noteq> of_nat l"
      using False small_words(1)[OF Suc.prems(3) l13] by simp
    have idx: "((of_nat l :: u32) + of_nat h) div 2 = of_nat m"
      unfolding m_def by (rule small_words(2)[OF l13 Suc.prems(3)])
    have nxt: "(of_nat m :: u32) + 1 = of_nat (m + 1)"
      by (rule small_words(3)[OF m(3) m(3)])
    show ?thesis
      using lt ne ih
      by (simp only: leaf_node_find_loop.simps Let_def idx nxt if_True if_False
          not_False_eq_True) (auto simp: less_le)
  qed
qed

lemma leaf_node_find_loop_last:
  assumes "\<forall>i. l \<le> i \<and> i < h \<longrightarrow> fst (leaf_cell_at node i) < key"
    and "fst (leaf_cell_at node h) = key"
    and "l \<le> h" "h < 13" "h - l < fuel"
  shows "leaf_node_find_loop fuel node key (of_nat l) (of_nat (h + 1)) = Inr (of_nat h)"
  using assms
proof (induction fuel arbitrary: l)
  case 0
  then show ?case by simp
next
  case (Suc fuel)
  define m where "m = (l + (h + 1)) div 2"
  have m: "l \<le> m" "m \<le> h" "m \<le> 13" "m + 1 \<le> 13"
    using Suc.prems by (simp_all add: m_def)
  have l13: "l \<le> 13" and h13: "h + 1 \<le> 13" using Suc.prems by simp_all
  have ne: "(of_nat (h + 1) :: u32) \<noteq> of_nat l"
    using Suc.prems(3) small_words(1)[OF h13 l13] by simp
  have idx: "((of_nat l :: u32) + of_nat (h + 1)) div 2 = of_nat m"
    unfolding m_def by (rule small_words(2)[OF l13 h13])
  have nxt: "(of_nat m :: u32) + 1 = of_nat (m + 1)"
    by (rule small_words(3)[OF m(3) m(3)])
  show ?case
  proof (cases "m = h")
    case True
    have "read32 node (leaf_node_key (of_nat m)) = key"
      using Suc.prems(2) True by (simp add: leaf_key_at)
    then show ?thesis
      using ne True
      by (simp only: leaf_node_find_loop.simps Let_def idx if_True if_False) auto
  next
    case False
    then have mh: "m < h" using m by simp
    have lt: "read32 node (leaf_node_key (of_nat m)) < key"
      using Suc.prems(1) m mh by (simp add: leaf_key_at)
    have ih: "leaf_node_find_loop fuel node key (of_nat (m + 1)) (of_nat (h + 1)) = Inr (of_nat h)"
    proof (rule Suc.IH)
      show "\<forall>i. m + 1 \<le> i \<and> i < h \<longrightarrow> fst (leaf_cell_at node i) < key"
        using Suc.prems(1) m by simp
      show "fst (leaf_cell_at node h) = key" by (rule Suc.prems(2))
      show "m + 1 \<le> h" using mh by simp
      show "h < 13" by (rule Suc.prems(4))
      show "h - (m + 1) < fuel" using Suc.prems(5) m mh by simp
    qed
    show ?thesis
      using lt ne ih
      by (simp only: leaf_node_find_loop.simps Let_def idx nxt if_True if_False) (auto simp: less_le)
  qed
qed

subsection \<open>Insertion into a leaf that has room\<close>

lemma header_bytes:
  assumes "\<forall>a<6. q a = p a"
  shows "get_node_type q = get_node_type p" "is_node_root q = is_node_root p"
    "read32 q 2 = read32 p 2"
proof -
  show "get_node_type q = get_node_type p" "is_node_root q = is_node_root p"
    using assms by (simp_all add: get_node_type_def is_node_root_def read8_def layout_defs)
  show "read32 q 2 = read32 p 2"
    by (rule read32_cong) (use assms in simp)
qed

lemma cell_written_same:
  assumes "j \<le> 13"
  shows "leaf_cell_at (serialize_row val (18 + 297 * j) (write32 (14 + 297 * j) key d)) j
           = (key, stored_row val)"
proof -
  have "leaf_cell_at (serialize_row val (18 + 297 * j) (write32 (14 + 297 * j) key d)) j
          = leaf_cell_at (write32 14 key (serialize_row val 18 (\<lambda>a. 0))) 0"
  proof (rule leaf_cell_at_cong)
    fix x :: nat assume x: "x < 297"
    show "serialize_row val (18 + 297 * j) (write32 (14 + 297 * j) key d) (14 + 297 * j + x)
            = write32 14 key (serialize_row val 18 (\<lambda>a. 0)) (14 + 297 * 0 + x)"
    proof (cases "x < 4")
      case True
      then show ?thesis by (simp add: serialize_row_outside write32_def)
    next
      case False
      define y where "y = x - 4"
      have y: "x = 4 + y" "y < 293"
        using False x by (simp_all add: y_def)
      have a: "14 + 297 * j + x = (18 + 297 * j) + y" and b: "14 + 297 * 0 + x = 18 + y"
        using y by simp_all
      show ?thesis
        unfolding a b using y(2) by (simp add: write32_def serialize_row_bytes)
    qed
  qed (use assms in simp_all)
  also have "\<dots> = (key, stored_row val)"
    by (simp add: leaf_cell_at_def offsets read32_write32_same stored_row_at)
  finally show ?thesis .
qed

lemma cell_written_other:
  assumes "m \<noteq> j" "m \<le> 13"
  shows "leaf_cell_at (serialize_row val (18 + 297 * j) (write32 (14 + 297 * j) key d)) m
           = leaf_cell_at d m"
proof (rule leaf_cell_at_cong)
  fix x :: nat assume "x < 297"
  then show "serialize_row val (18 + 297 * j) (write32 (14 + 297 * j) key d) (14 + 297 * m + x)
               = d (14 + 297 * m + x)"
    using assms(1) by (cases "m < j") (simp_all add: serialize_row_outside write32_def)
qed (use assms in simp_all)

lemma cell_written_header:
  "a < 14 \<Longrightarrow> serialize_row val (18 + 297 * j) (write32 (14 + 297 * j) key d) a = d a"
  by (simp add: serialize_row_outside write32_def)

lemma leaf_cells_count:
  assumes "leaf_cells p = cells" "length cells \<le> 13"
  shows "read32 p leaf_node_num_cells = of_nat (length cells)"
    and "\<And>i. i < length cells \<Longrightarrow> leaf_cell_at p i = cells ! i"
proof -
  have "length cells = unat (read32 p leaf_node_num_cells)"
    using assms(1) by (auto simp: leaf_cells_def)
  then show "read32 p leaf_node_num_cells = of_nat (length cells)"
    by simp
  show "\<And>i. i < length cells \<Longrightarrow> leaf_cell_at p i = cells ! i"
    using assms(1) by (auto simp: leaf_cells_def)
qed

lemma leaf_cells_eqI:
  assumes "read32 p leaf_node_num_cells = of_nat (length cells)" "length cells \<le> 13"
    and "\<And>i. i < length cells \<Longrightarrow> leaf_cell_at p i = cells ! i"
  shows "leaf_cells p = cells"
proof -
  have "unat (read32 p leaf_node_num_cells) = length cells"
    using assms(1,2) by (simp add: unat_of_nat)
  then have eq: "leaf_cells p = map (leaf_cell_at p) [0..<length cells]"
    by (simp add: leaf_cells_def)
  show ?thesis
    unfolding eq
  proof (rule nth_equalityI)
    show "length (map (leaf_cell_at p) [0..<length cells]) = length cells" by simp
  next
    fix i assume "i < length (map (leaf_cell_at p) [0..<length cells])"
    then have i: "i < length cells" by simp
    then show "map (leaf_cell_at p) [0..<length cells] ! i = cells ! i"
      using assms(3)[OF i] by simp
  qed
qed

lemma table_find_leaf_root_above:
  assumes root: "pages (pager t) (root_page_num t) = Some p" "root_page_num t < TABLE_MAX_PAGES"
    and leaf: "get_node_type p = NODE_LEAF"
    and cnt: "read32 p leaf_node_num_cells = of_nat n" "n \<le> 13"
    and above: "\<forall>i<n. fst (leaf_cell_at p i) < key"
    and fuel: "n < fuel"
  shows "table_find fuel t key
           = Inr (\<lparr>page_num = root_page_num t, cell_num = of_nat n, end_of_table = False\<rparr>, t)"
proof -
  have loop: "leaf_node_find_loop fuel p key 0 (of_nat n) = Inr (of_nat n)"
    using leaf_node_find_loop_above[of 0 n p key fuel] above cnt(2) fuel by simp
  show ?thesis
    by (simp add: table_find_def leaf_node_find_def get_page_loaded[OF root]
        node_at_loaded[OF root(1)] leaf cnt(1) loop)
qed

lemma leaf_node_insert_append:
  assumes loaded: "pages (pager t) pn = Some p" "pn < TABLE_MAX_PAGES"
    and cnt: "read32 p leaf_node_num_cells = of_nat n" "n < 13"
  shows "leaf_node_insert fuel t \<lparr>page_num = pn, cell_num = of_nat n, end_of_table = e\<rparr> key val
           = Inr (t\<lparr>pager := node_update pn
                (\<lambda>d. serialize_row val (18 + 297 * n)
                        (write32 (14 + 297 * n) key (write32 6 (of_nat n + 1) d))) (pager t)\<rparr>)"
proof -
  have n13: "n \<le> 13" using cnt(2) by simp
  have w: "(of_nat n :: u32) \<le> 13" "\<not> (13 :: u32) \<le> of_nat n"
    using small_words(5)[OF n13, of 13] small_words(5)[of 13 n] cnt(2)
    by simp_all
  have off: "leaf_node_key (of_nat n) = 14 + 297 * n" "leaf_node_value (of_nat n) = 18 + 297 * n"
    by (simp_all add: offsets leaf_cell_offset[OF n13])
  have step3: "node_update pn (\<lambda>nd. write32 leaf_node_num_cells (read32 nd leaf_node_num_cells + 1) nd)
                 (pager t) = node_update pn (write32 6 (of_nat n + 1)) (pager t)"
    using loaded(1) cnt(1) by (simp add: node_update_def offsets)
  show ?thesis
    unfolding leaf_node_insert_def Let_def
    by (simp add: get_page_loaded[OF loaded] node_at_loaded[OF loaded(1)] cnt(1) sizes w step3
        off node_update_twice)
qed

lemma execute_insert_leaf_root_append:
  assumes st: "leaf_root_state t cells" and room: "length cells < 13"
    and above: "\<forall>c \<in> set cells. fst c < id_field r" and fuel: "length cells < fuel"
  shows "\<exists>t'. execute_insert fuel \<lparr>type = STATEMENT_INSERT, row = r\<rparr> t
                = Inr (EXECUTE_SUCCESS, t')
             \<and> leaf_root_state t' (cells @ [(id_field r, stored_row r)])"
proof -
  let ?n = "length cells"
  let ?key = "id_field r"
  from st obtain p where
    root: "root_page_num t = 0" and np: "num_pages (pager t) = 1"
    and rdp: "\<forall>n b. read_page (pager t) n b = Some b"
    and pg: "pages (pager t) 0 = Some p" and leaf: "get_node_type p = NODE_LEAF"
    and isr: "is_node_root p" and nxt: "read32 p leaf_node_next_leaf = INVALID_PAGE_NUM"
    and cells: "leaf_cells p = cells"
    unfolding leaf_root_state_def by blast
  have n13: "?n \<le> 13" using room by simp
  have cnt: "read32 p leaf_node_num_cells = of_nat ?n"
    and nth: "\<And>i. i < ?n \<Longrightarrow> leaf_cell_at p i = cells ! i"
    using leaf_cells_count[OF cells n13] by simp_all
  have pg': "pages (pager t) (root_page_num t) = Some p" "root_page_num t < TABLE_MAX_PAGES"
    using pg root by (simp_all add: sizes)
  have ab: "\<forall>i<?n. fst (leaf_cell_at p i) < ?key"
    using above nth by simp
  have find: "table_find fuel t ?key
      = Inr (\<lparr>page_num = 0, cell_num = of_nat ?n, end_of_table = False\<rparr>, t)"
    using table_find_leaf_root_above[OF pg' leaf cnt n13 ab fuel] root by simp
  define p' where
    "p' = serialize_row r (18 + 297 * ?n) (write32 (14 + 297 * ?n) ?key (write32 6 (of_nat ?n + 1) p))"
  define t' where "t' = t\<lparr>pager := node_update 0 (\<lambda>d. serialize_row r (18 + 297 * ?n)
                        (write32 (14 + 297 * ?n) ?key (write32 6 (of_nat ?n + 1) d))) (pager t)\<rparr>"
  have pg0: "pages (pager t) 0 = Some p" "0 < TABLE_MAX_PAGES"
    using pg by (simp_all add: sizes)
  have ins: "leaf_node_insert fuel t \<lparr>page_num = 0, cell_num = of_nat ?n, end_of_table = False\<rparr>
               ?key r = Inr t'"
    unfolding t'_def by (rule leaf_node_insert_append[OF pg0 cnt room])
  have res: "execute_insert fuel \<lparr>type = STATEMENT_INSERT, row = r\<rparr> t = Inr (EXECUTE_SUCCESS, t')"
    unfolding execute_insert_def get_page_loaded[OF pg'] bind_f_simps Let_def
    by (simp add: find ins node_at_loaded[OF pg'(1)] cnt)
  have pt': "pages (pager t') 0 = Some p'"
    using pg by (simp add: t'_def p'_def node_update_simps)
  have hdr: "\<forall>a<6. p' a = p a"
    by (simp add: p'_def cell_written_header write32_def)
  have nxt': "read32 p' leaf_node_next_leaf = INVALID_PAGE_NUM"
  proof -
    have "read32 p' 10 = read32 p 10"
      by (rule read32_cong) (simp add: p'_def cell_written_header write32_def)
    then show ?thesis using nxt by (simp add: offsets)
  qed
  have cnt': "read32 p' leaf_node_num_cells = of_nat ?n + 1"
  proof -
    have "read32 p' 6 = read32 (write32 6 (of_nat ?n + 1) p) 6"
      by (rule read32_cong) (simp add: p'_def cell_written_header)
    then show ?thesis by (simp add: offsets read32_write32_same)
  qed
  have old_cells: "\<And>i. i < ?n \<Longrightarrow> leaf_cell_at p' i = cells ! i"
  proof -
    fix i assume i: "i < ?n"
    then have "leaf_cell_at p' i = leaf_cell_at (write32 6 (of_nat ?n + 1) p) i"
      using n13 unfolding p'_def by (intro cell_written_other) simp_all
    also have "\<dots> = leaf_cell_at p i"
      using i n13 by (intro leaf_cell_at_header_write) simp_all
    finally show "leaf_cell_at p' i = cells ! i" using nth[OF i] by simp
  qed
  have new_cell: "leaf_cell_at p' ?n = (?key, stored_row r)"
    unfolding p'_def by (rule cell_written_same[OF n13])
  have cells': "leaf_cells p' = cells @ [(?key, stored_row r)]"
  proof (rule leaf_cells_eqI)
    show "read32 p' leaf_node_num_cells = of_nat (length (cells @ [(?key, stored_row r)]))"
      using cnt' by (simp add: add.commute)
    show "length (cells @ [(?key, stored_row r)]) \<le> 13" using room by simp
    fix i assume "i < length (cells @ [(?key, stored_row r)])"
    then show "leaf_cell_at p' i = (cells @ [(?key, stored_row r)]) ! i"
      using old_cells new_cell by (cases "i < ?n") (simp_all add: nth_append less_Suc_eq)
  qed
  have rt': "root_page_num t' = 0" "num_pages (pager t') = 1"
    "\<forall>n b. read_page (pager t') n b = Some b"
    using root np rdp by (simp_all add: t'_def node_update_simps)
  have l14: "length (cells @ [(?key, stored_row r)]) \<le> 13"
    using room by simp
  have ty': "get_node_type p' = NODE_LEAF" "is_node_root p'"
    using header_bytes(1,2)[OF hdr] leaf isr by simp_all
  have "leaf_root_state t' (cells @ [(?key, stored_row r)])"
    unfolding leaf_root_state_def
    using rt' l14 pt' ty' nxt' cells' by blast
  then show ?thesis using res by blast
qed

subsection \<open>Sequences of statements\<close>

lemma execute_statements_append:
  "execute_statements fuel (xs @ ys) t =
     (case execute_statements fuel xs t of
        (out, ress, Inl e) \<Rightarrow> (out, ress, Inl e)
      | (out, ress, Inr t1) \<Rightarrow>
          (case execute_statements fuel ys t1 of
             (out1, ress1, final) \<Rightarrow> (out @ out1, ress @ ress1, final)))"
proof (induction xs arbitrary: t)
  case Nil
  then show ?case by (simp split: prod.splits)
next
  case (Cons x xs)
  show ?case
    by (simp add: Cons.IH split: prod.splits sum.splits)
qed

lemma execute_statement_insert:
  "execute_statement fuel (insert_statement r) t
     = ([], execute_insert fuel \<lparr>type = STATEMENT_INSERT, row = r\<rparr> t)"
  by (simp add: execute_statement_def insert_statement_def)

lemma leaf_root_state_empty: "leaf_root_state empty_table []"
proof -
  have "leaf_cells (set_node_root True (init_leaf_node (\<lambda>a. 0))) = []"
    by (simp add: leaf_cells_def offsets empty_root_fields)
  then show ?thesis
    unfolding leaf_root_state_def
    using empty_table_root empty_root_fields(1,3)[of "\<lambda>a. 0"]
    by (auto simp: is_root_simps offsets empty_table_def)
qed

lemma inserts_into_leaf_root:
  assumes "length rows \<le> 13" "sorted_wrt (<) (map id_field rows)" "13 \<le> fuel"
  shows "\<exists>t. execute_statements fuel (map insert_statement rows) empty_table
               = ([], replicate (length rows) EXECUTE_SUCCESS, Inr t)
           \<and> leaf_root_state t (map cell_of rows)"
  using assms(1,2)
proof (induction rows rule: rev_induct)
  case Nil
  show ?case using leaf_root_state_empty by simp
next
  case (snoc r rows)
  have len: "length rows < 13" and srt: "sorted_wrt (<) (map id_field rows)"
    and ab: "\<forall>x \<in> set rows. id_field x < id_field r"
    using snoc.prems by (auto simp: sorted_wrt_append)
  from snoc.IH[OF _ srt] len obtain t where
    run: "execute_statements fuel (map insert_statement rows) empty_table
            = ([], replicate (length rows) EXECUTE_SUCCESS, Inr t)"
    and st: "leaf_root_state t (map cell_of rows)"
    by auto
  have ab': "\<forall>c \<in> set (map cell_of rows). fst c < id_field r"
    using ab by (simp add: cell_of_def)
  have fl: "length (map cell_of rows) < fuel" and rm: "length (map cell_of rows) < 13"
    using len assms(3) by simp_all
  from execute_insert_leaf_root_append[OF st rm ab' fl] obtain t' where
    ins: "execute_insert fuel \<lparr>type = STATEMENT_INSERT, row = r\<rparr> t = Inr (EXECUTE_SUCCESS, t')"
    and st': "leaf_root_state t' (map cell_of rows @ [(id_field r, stored_row r)])"
    by blast
  have "execute_statements fuel (map insert_statement (rows @ [r])) empty_table
          = ([], replicate (length (rows @ [r])) EXECUTE_SUCCESS, Inr t')"
    by (simp add: execute_statements_append run execute_statement_insert ins
        replicate_append_same)
  moreover have "leaf_root_state t' (map cell_of (rows @ [r]))"
    using st' by (simp add: cell_of_def)
  ultimately show ?case by blast
qed

subsection \<open>The scan of a table whose root is a leaf\<close>

lemma leaf_node_find_loop_zero:
  assumes "\<forall>i. 0 < i \<and> i < h \<longrightarrow> fst (leaf_cell_at node i) \<noteq> 0"
    and "h \<le> 13" "h < fuel"
  shows "leaf_node_find_loop fuel node 0 0 (of_nat h) = Inr 0"
  using assms
proof (induction fuel arbitrary: h)
  case 0
  then show ?case by simp
next
  case (Suc fuel)
  show ?case
  proof (cases "h = 0")
    case True
    then show ?thesis by simp
  next
    case False
    define m where "m = h div 2"
    have m: "m < h" "m \<le> 13" using False Suc.prems by (simp_all add: m_def)
    have ne: "(of_nat h :: u32) \<noteq> 0"
      using False small_words(1)[OF Suc.prems(2), of 0] by simp
    have idx: "((0 :: u32) + of_nat h) div 2 = of_nat m"
      using small_words(2)[of 0 h] Suc.prems(2) by (simp add: m_def)
    have ih: "leaf_node_find_loop fuel node 0 0 (of_nat m) = Inr 0"
    proof (rule Suc.IH)
      show "\<forall>i. 0 < i \<and> i < m \<longrightarrow> fst (leaf_cell_at node i) \<noteq> 0"
        using Suc.prems(1) m by simp
      show "m \<le> 13" by (rule m(2))
      show "m < fuel" using Suc.prems(3) m by simp
    qed
    show ?thesis
    proof (cases "read32 node (leaf_node_key (of_nat m)) = 0")
      case True
      then have "m = 0"
        using Suc.prems(1) m by (auto simp: leaf_key_at)
      then show ?thesis
        using ne True
        by (simp only: leaf_node_find_loop.simps Let_def idx if_True if_False) auto
    next
      case nz: False
      then have pos: "0 < read32 node (leaf_node_key (of_nat m))"
        by (simp add: word_neq_0_conv)
      show ?thesis
        using ne nz pos ih
        by (simp only: leaf_node_find_loop.simps Let_def idx if_True if_False) auto
    qed
  qed
qed

lemma get_page_invalid: "get_page pgr INVALID_PAGE_NUM = Inl (Page_Out_Of_Bounds INVALID_PAGE_NUM)"
  by (simp add: get_page_def sizes)

lemma execute_select_loop_leaf_root:
  assumes pg: "pages (pager t) 0 = Some p"
    and cnt: "read32 p leaf_node_num_cells = of_nat n" "n \<le> 13"
    and nxt: "read32 p leaf_node_next_leaf = INVALID_PAGE_NUM"
    and i: "i < n" and fuel: "n - i < fuel"
  shows "execute_select_loop fuel t \<lparr>page_num = 0, cell_num = of_nat i, end_of_table = False\<rparr> out
           = (out @ map (\<lambda>j. print_row (snd (leaf_cell_at p j))) [i..<n],
              Inl (Page_Out_Of_Bounds INVALID_PAGE_NUM))"
  using i fuel
proof (induction fuel arbitrary: i out)
  case 0
  then show ?case by simp
next
  case (Suc fuel)
  have i13: "i \<le> 13" using Suc.prems(1) cnt(2) by simp
  have pg0: "pages (pager t) 0 = Some p" "0 < TABLE_MAX_PAGES"
    using pg by (simp_all add: sizes)
  have cv: "cursor_value t \<lparr>page_num = 0, cell_num = of_nat i, end_of_table = False\<rparr>
              = Inr ((0, leaf_node_value (of_nat i)), t)"
    by (simp add: cursor_value_def get_page_loaded[OF pg0])
  have row: "deserialize_row p (leaf_node_value (of_nat i)) = snd (leaf_cell_at p i)"
    by (simp add: leaf_cell_at_def)
  have nxt1: "(of_nat i :: u32) + 1 = of_nat (Suc i)"
    using small_words(3)[OF i13 i13] by simp
  have upt: "[i..<n] = i # [Suc i..<n]"
    using Suc.prems(1) by (simp add: upt_conv_Cons)
  show ?case
  proof (cases "Suc i < n")
    case True
    have ge: "\<not> (of_nat n :: u32) \<le> of_nat (Suc i)"
      using small_words(5)[of n "i + 1"] cnt(2) True by simp
    have ca: "cursor_advance t \<lparr>page_num = 0, cell_num = of_nat i, end_of_table = False\<rparr>
              = Inr (\<lparr>page_num = 0, cell_num = of_nat (Suc i), end_of_table = False\<rparr>, t)"
      using ge
      by (simp add: cursor_advance_def get_page_loaded[OF pg0] node_at_loaded[OF pg] cnt(1) nxt1
          del: of_nat_Suc of_nat_add)
    have ih: "execute_select_loop fuel t
                \<lparr>page_num = 0, cell_num = of_nat (Suc i), end_of_table = False\<rparr>
                (out @ [print_row (snd (leaf_cell_at p i))])
              = ((out @ [print_row (snd (leaf_cell_at p i))])
                   @ map (\<lambda>j. print_row (snd (leaf_cell_at p j))) [Suc i..<n],
                 Inl (Page_Out_Of_Bounds INVALID_PAGE_NUM))"
      by (rule Suc.IH) (use True Suc.prems(2) in simp_all)
    show ?thesis
      unfolding upt
      by (simp add: cv ca ih node_at_loaded[OF pg] row del: of_nat_Suc of_nat_add)
  next
    case False
    then have last: "Suc i = n" using Suc.prems(1) by simp
    have ge: "(of_nat n :: u32) \<le> of_nat (Suc i)"
      using last by simp
    have inv0: "INVALID_PAGE_NUM \<noteq> (0 :: u32)" by (simp add: sizes)
    have ca: "cursor_advance t \<lparr>page_num = 0, cell_num = of_nat i, end_of_table = False\<rparr>
              = Inr (\<lparr>page_num = INVALID_PAGE_NUM, cell_num = 0, end_of_table = False\<rparr>, t)"
      using ge inv0
      by (simp add: cursor_advance_def get_page_loaded[OF pg0] node_at_loaded[OF pg] cnt(1) nxt1
          nxt del: of_nat_Suc of_nat_add)
    obtain fuel' where f: "fuel = Suc fuel'"
      using Suc.prems last by (cases fuel) simp_all
    have stop: "execute_select_loop fuel t
                  \<lparr>page_num = INVALID_PAGE_NUM, cell_num = 0, end_of_table = False\<rparr> out'
                = (out', Inl (Page_Out_Of_Bounds INVALID_PAGE_NUM))" for out'
      unfolding f by (simp add: cursor_value_def get_page_invalid)
    have one: "[Suc i..<n] = []" using last by simp
    show ?thesis
      unfolding upt one
      by (simp add: cv ca stop node_at_loaded[OF pg] row del: of_nat_Suc of_nat_add)
  qed
qed

lemma execute_select_leaf_root:
  assumes st: "leaf_root_state t cells" and ne: "cells \<noteq> []"
    and keys: "sorted_wrt (<) (map fst cells)" and fuel: "length cells < fuel"
  shows "execute_statement fuel select_statement t
           = (map (\<lambda>c. print_row (snd c)) cells, Inl (Page_Out_Of_Bounds INVALID_PAGE_NUM))"
proof -
  let ?n = "length cells"
  from st obtain p where
    root: "root_page_num t = 0"
    and pg: "pages (pager t) 0 = Some p" and leaf: "get_node_type p = NODE_LEAF"
    and nxt: "read32 p leaf_node_next_leaf = INVALID_PAGE_NUM"
    and cells: "leaf_cells p = cells" and n13: "?n \<le> 13"
    unfolding leaf_root_state_def by blast
  have cnt: "read32 p leaf_node_num_cells = of_nat ?n"
    and nth: "\<And>i. i < ?n \<Longrightarrow> leaf_cell_at p i = cells ! i"
    using leaf_cells_count[OF cells n13] by simp_all
  have pg0: "pages (pager t) 0 = Some p" "0 < TABLE_MAX_PAGES"
    using pg by (simp_all add: sizes)
  have pos: "0 < ?n" using ne by simp
  have nz: "\<forall>i. 0 < i \<and> i < ?n \<longrightarrow> fst (leaf_cell_at p i) \<noteq> 0"
  proof (intro allI impI)
    fix i assume i: "0 < i \<and> i < ?n"
    then have "map fst cells ! 0 < map fst cells ! i"
      using keys sorted_wrt_nth_less[of "(<)" "map fst cells" 0 i] by simp
    then have "fst (cells ! 0) < fst (cells ! i)"
      using i pos by simp
    then show "fst (leaf_cell_at p i) \<noteq> 0"
      using i nth[of i] by (auto simp: word_gt_0)
  qed
  have loop: "leaf_node_find_loop fuel p 0 0 (of_nat ?n) = Inr 0"
    by (rule leaf_node_find_loop_zero[OF nz n13 fuel])
  have find: "table_find fuel t 0
                = Inr (\<lparr>page_num = 0, cell_num = 0, end_of_table = False\<rparr>, t)"
    by (simp add: table_find_def leaf_node_find_def root get_page_loaded[OF pg0]
        node_at_loaded[OF pg] leaf cnt loop)
  have n0: "(of_nat ?n :: u32) \<noteq> 0"
    using small_words(1)[OF n13, of 0] pos by simp
  have start: "table_start fuel t
                 = Inr (\<lparr>page_num = 0, cell_num = 0, end_of_table = False\<rparr>, t)"
    using n0 by (simp add: table_start_def find get_page_loaded[OF pg0] node_at_loaded[OF pg] cnt)
  have fl: "?n - 0 < fuel" using fuel by simp
  have scan: "execute_select_loop fuel t \<lparr>page_num = 0, cell_num = 0, end_of_table = False\<rparr> []
                = (map (\<lambda>j. print_row (snd (leaf_cell_at p j))) [0..<?n],
                   Inl (Page_Out_Of_Bounds INVALID_PAGE_NUM))"
    using execute_select_loop_leaf_root[OF pg cnt n13 nxt pos fl, of "[]"] by simp
  have out: "map (\<lambda>j. print_row (snd (leaf_cell_at p j))) [0..<?n]
               = map (\<lambda>c. print_row (snd c)) cells"
    by (rule nth_equalityI) (simp_all add: nth)
  show ?thesis
    by (simp add: execute_statement_def select_statement_def execute_select_def start scan out)
qed

lemma print_stored_row:
  assumes "length (cstring (username r)) \<le> COLUMN_USERNAME_SIZE"
    and "length (cstring (email r)) \<le> COLUMN_EMAIL_SIZE"
  shows "print_row (stored_row r) = print_row r"
proof -
  have u: "0 < 33 - length (cstring (username r))" and e: "0 < 256 - length (cstring (email r))"
    using assms by (simp_all add: layout_defs)
  show ?thesis
    unfolding stored_row_def deserialize_serialize_row[OF assms]
    by (simp add: print_row_def cstring_padded[OF u] cstring_padded[OF e])
qed

text \<open>
  Claim C1.  The scan does not terminate normally when the table holds a row.  For up to
  13 rows with ascending ids that are inserted into the empty database, all insertions
  succeed and the select that follows prints these rows in this order; then
  \<^verbatim>\<open>cursor_advance\<close> reads the \<^verbatim>\<open>next_leaf\<close> of the root leaf, which is
  \<^verbatim>\<open>INVALID_PAGE_NUM\<close> and not 0, moves the cursor to this page number with
  \<^verbatim>\<open>end_of_table\<close> still false, and the next \<^verbatim>\<open>cursor_value\<close> stops the process in the
  bounds check of \<^verbatim>\<open>get_page\<close>.
\<close>

theorem select_after_inserts_stops_out_of_bounds:
  assumes "rows \<noteq> []" and "length rows \<le> 13"
    and "sorted_wrt (<) (map id_field rows)" and "13 < fuel"
  shows "execute_statements fuel (map insert_statement rows @ [select_statement]) empty_table
           = (map (\<lambda>r. print_row (stored_row r)) rows,
              replicate (length rows) EXECUTE_SUCCESS,
              Inl (Page_Out_Of_Bounds INVALID_PAGE_NUM))"
proof -
  have f13: "13 \<le> fuel" using assms(4) by simp
  from inserts_into_leaf_root[OF assms(2,3) f13] obtain t where
    run: "execute_statements fuel (map insert_statement rows) empty_table
            = ([], replicate (length rows) EXECUTE_SUCCESS, Inr t)"
    and st: "leaf_root_state t (map cell_of rows)"
    by blast
  have ne: "map cell_of rows \<noteq> []" using assms(1) by simp
  have keys: "sorted_wrt (<) (map fst (map cell_of rows))"
    using assms(3) by (simp add: cell_of_def comp_def)
  have fl: "length (map cell_of rows) < fuel" using assms(2,4) by simp
  have sel: "execute_statement fuel select_statement t
               = (map (\<lambda>r. print_row (stored_row r)) rows,
                  Inl (Page_Out_Of_Bounds INVALID_PAGE_NUM))"
    using execute_select_leaf_root[OF st ne keys fl] by (simp add: cell_of_def comp_def)
  show ?thesis
    by (simp add: execute_statements_append run sel)
qed

theorem select_after_inserts_stops_out_of_bounds_witness:
  "execute_statements 14
     [insert_statement \<lparr>id_field = 1, username = [0x61, 0], email = [0x62, 0]\<rparr>,
      insert_statement \<lparr>id_field = 2, username = [0x63, 0], email = [0x64, 0]\<rparr>,
      select_statement] empty_table
   = ([(1, [0x61], [0x62]), (2, [0x63], [0x64])],
      [EXECUTE_SUCCESS, EXECUTE_SUCCESS],
      Inl (Page_Out_Of_Bounds 0xFFFFFFFF))"
proof -
  let ?r1 = "\<lparr>id_field = 1, username = [0x61, 0], email = [0x62, 0]\<rparr> :: Row"
  let ?r2 = "\<lparr>id_field = 2, username = [0x63, 0], email = [0x64, 0]\<rparr> :: Row"
  have p1: "print_row (stored_row ?r1) = (1, [0x61], [0x62])"
    by (subst print_stored_row) (simp_all add: cstring_def layout_defs print_row_def)
  have p2: "print_row (stored_row ?r2) = (2, [0x63], [0x64])"
    by (subst print_stored_row) (simp_all add: cstring_def layout_defs print_row_def)
  show ?thesis
    using select_after_inserts_stops_out_of_bounds[of "[?r1, ?r2]" 14]
    by (simp add: p1 p2 sizes)
qed

subsection \<open>A new root above two leaves\<close>

lemma node_types_differ: "NODE_LEAF \<noteq> NODE_INTERNAL"
  by (simp add: layout_defs)

lemma copied_page:
  "get_node_type (memmove d 0 sp 0 4096) = get_node_type sp"
  "b + 4 \<le> 4096 \<Longrightarrow> read32 (memmove d 0 sp 0 4096) b = read32 sp b"
  "j < 13 \<Longrightarrow> leaf_cell_at (memmove d 0 sp 0 4096) j = leaf_cell_at sp j"
proof -
  show "get_node_type (memmove d 0 sp 0 4096) = get_node_type sp"
    by (simp add: get_node_type_def read8_def memmove_def layout_defs)
  show "b + 4 \<le> 4096 \<Longrightarrow> read32 (memmove d 0 sp 0 4096) b = read32 sp b"
    by (rule read32_cong) (simp add: memmove_def)
  show "j < 13 \<Longrightarrow> leaf_cell_at (memmove d 0 sp 0 4096) j = leaf_cell_at sp j"
    by (rule leaf_cell_at_cong) (simp_all add: memmove_def)
qed

lemma leaf_cell_at_root_flag:
  "j \<le> 13 \<Longrightarrow> leaf_cell_at (set_node_root b d) j = leaf_cell_at d j"
  by (rule leaf_cell_at_cong) (simp_all add: set_node_root_def write8_def layout_defs)

lemma init_internal_node_fields:
  "get_node_type (init_internal_node node) = NODE_INTERNAL"
  "14 \<le> b \<Longrightarrow> read32 (init_internal_node node) b = read32 node b"
  by (simp_all add: init_internal_node_def offsets node_type_simps read32_simps)

lemma create_new_root_leaf:
  assumes pr: "pages (pager table) (root_page_num table) = Some o'"
      "root_page_num table < TABLE_MAX_PAGES"
    and pn: "pages (pager table) new = Some n'" "new < TABLE_MAX_PAGES"
    and lb: "num_pages (pager table) < TABLE_MAX_PAGES"
    and ne: "root_page_num table \<noteq> new" "root_page_num table \<noteq> num_pages (pager table)"
      "new \<noteq> num_pages (pager table)"
    and rd: "read_page (pager table) (num_pages (pager table))
               (malloc_page (pager table) (num_pages (pager table))) \<noteq> None"
    and leaf: "get_node_type o' = NODE_LEAF"
    and cnt: "read32 o' leaf_node_num_cells = 7"
    and k0: "fst (leaf_cell_at o' 0) \<noteq> INVALID_PAGE_NUM"
  shows "\<exists>pgr' rt' l'.
      create_new_root (Suc fuel) table new = Inr (table\<lparr>pager := pgr'\<rparr>)
    \<and> pages pgr' (root_page_num table) = Some rt'
    \<and> pages pgr' (num_pages (pager table)) = Some l'
    \<and> pages pgr' new = Some (write32 2 (root_page_num table) n')
    \<and> num_pages pgr' = num_pages (pager table) + 1
    \<and> read_page pgr' = read_page (pager table)
    \<and> get_node_type rt' = NODE_INTERNAL \<and> is_node_root rt'
    \<and> read32 rt' internal_node_num_keys = 1
    \<and> read32 rt' internal_node_right_child = new
    \<and> read32 rt' (internal_node_cell 0) = num_pages (pager table)
    \<and> read32 rt' (internal_node_key 0) = fst (leaf_cell_at o' 6)
    \<and> get_node_type l' = NODE_LEAF \<and> \<not> is_node_root l'
    \<and> read32 l' node_parent = root_page_num table
    \<and> read32 l' leaf_node_num_cells = 7
    \<and> read32 l' leaf_node_next_leaf = read32 o' leaf_node_next_leaf
    \<and> (\<forall>j<13. leaf_cell_at l' j = leaf_cell_at o' j)"
proof -
  let ?pgr = "pager table"
  let ?root = "root_page_num table"
  let ?left = "num_pages (pager table)"
  define maxk where "maxk = read32 o' (leaf_node_key 6)"
  have g1: "get_page ?pgr ?root = Inr ?pgr"
    by (rule get_page_loaded[OF pr])
  have g2: "get_page ?pgr new = Inr ?pgr"
    by (rule get_page_loaded[OF pn])
  define pgr3 where "pgr3 = ?pgr\<lparr>num_pages := ?left + 1\<rparr>"
  have rd3: "read_page pgr3 ?left (malloc_page pgr3 ?left) \<noteq> None"
    using rd by (simp add: pgr3_def)
  from get_page_cases[OF lb rd3] obtain l0 pgr4 where
    g4: "get_page pgr3 ?left = Inr pgr4" and p4: "pages pgr4 = (pages pgr3)(?left := Some l0)"
    and np4: "num_pages pgr4 =
      (if pages pgr3 ?left = None \<and> num_pages pgr3 \<le> ?left then ?left + 1 else num_pages pgr3)"
    and host4: "read_page pgr4 = read_page pgr3"
    by blast
  have np4': "num_pages pgr4 = ?left + 1"
    using np4 by (simp add: pgr3_def)
  have p4r: "pages pgr4 ?root = Some o'" and p4l: "pages pgr4 ?left = Some l0"
    and p4n: "pages pgr4 new = Some n'"
    using pr(1) pn(1) ne by (simp_all add: p4 pgr3_def)
  define l1 where "l1 = set_node_root False (memmove l0 0 o' 0 (unat PAGE_SIZE))"
  define r1 where
    "r1 = write32 internal_node_num_keys 1 (set_node_root True (init_internal_node o'))"
  define pgr6 where
    "pgr6 = node_update ?left (\<lambda>left_child. memmove left_child 0 o' 0 (unat PAGE_SIZE)) pgr4"
  define pgr7 where "pgr7 = node_update ?left (set_node_root False) pgr6"
  define pgr9 where
    "pgr9 = node_update ?root
              (\<lambda>node. write32 internal_node_num_keys 1
                         (set_node_root True (init_internal_node node))) pgr7"
  define pgr10 where "pgr10 = node_update ?root (write32 (internal_node_cell 0) ?left) pgr9"
  define pgr12 where "pgr12 = node_update ?root (write32 (internal_node_key 0) maxk) pgr10"
  define pgr13 where "pgr13 = node_update ?root (write32 internal_node_right_child new) pgr12"
  define pgr14 where "pgr14 = node_update ?left (write32 node_parent ?root) pgr13"
  define pgr15 where "pgr15 = node_update new (write32 node_parent ?root) pgr14"
  have t4: "get_node_type (node_at pgr4 ?root) \<noteq> NODE_INTERNAL"
    and n4: "node_at pgr4 ?root = o'"
    using leaf node_types_differ by (simp_all add: node_at_loaded[OF p4r])
  have p7: "pages pgr7 ?left = Some l1" "pages pgr7 ?root = Some o'" "pages pgr7 new = Some n'"
    using p4r p4l p4n ne by (simp_all add: pgr7_def pgr6_def node_update_simps l1_def)
  have t7: "get_node_type (node_at pgr7 ?left) \<noteq> NODE_INTERNAL"
    using leaf node_types_differ
    by (simp add: node_at_loaded[OF p7(1)] l1_def node_type_simps sizes copied_page)
  have p9: "pages pgr9 ?root = Some r1" "pages pgr9 ?left = Some l1" "pages pgr9 new = Some n'"
    using p7 ne by (simp_all add: pgr9_def node_update_simps r1_def)
  have slot0: "read32 r1 (internal_node_cell 0) = fst (leaf_cell_at o' 0)"
    by (simp add: r1_def offsets read32_simps init_internal_node_fields leaf_cell_at_def)
  have ch9: "internal_node_child (node_at pgr9 ?root) 0 = Inr (internal_node_cell 0)"
    using k0
    by (simp add: internal_node_child_def node_at_loaded[OF p9(1)] slot0 Let_def)
       (simp add: r1_def offsets read32_simps)
  have p10: "pages pgr10 ?left = Some l1"
    "pages pgr10 ?root = Some (write32 (internal_node_cell 0) ?left r1)"
    "pages pgr10 new = Some n'"
    using p9 ne by (simp_all add: pgr10_def node_update_simps)
  have l1_fields: "get_node_type l1 = NODE_LEAF" "read32 l1 leaf_node_num_cells = 7"
    "read32 l1 leaf_node_next_leaf = read32 o' leaf_node_next_leaf" "\<not> is_node_root l1"
    "read32 l1 (leaf_node_key 6) = maxk"
    using leaf cnt
    by (simp_all add: l1_def sizes offsets node_type_simps is_root_simps read32_simps copied_page
        maxk_def)
  have mk10: "get_node_max_key (Suc fuel) pgr10 ?left = Inr (maxk, pgr10)"
    using l1_fields by (simp add: node_at_loaded[OF p10(1)])
  have tL: "(get_node_type o' = NODE_INTERNAL) = False"
    using leaf node_types_differ by simp
  have t7': "(get_node_type (node_at pgr7 ?left) = NODE_INTERNAL) = False"
    using t7 by simp
  have res: "create_new_root (Suc fuel) table new = Inr (table\<lparr>pager := pgr15\<rparr>)"
    apply (simp only: create_new_root_def Let_def g1 sum.case g2 get_unused_page_num_def prod.case)
    apply (simp only: pgr3_def[symmetric] g4 sum.case n4 tL if_False)
    apply (simp only: pgr6_def[symmetric] pgr7_def[symmetric] t7' if_False sum.case)
    apply (simp only: pgr9_def[symmetric] ch9 sum.case pgr10_def[symmetric] mk10 prod.case)
    apply (simp only: pgr12_def[symmetric] pgr13_def[symmetric] pgr14_def[symmetric]
        pgr15_def[symmetric])
    done
  define rt' where
    "rt' = write32 internal_node_right_child new
             (write32 (internal_node_key 0) maxk (write32 (internal_node_cell 0) ?left r1))"
  define l' where "l' = write32 node_parent ?root l1"
  have p15: "pages pgr15 ?root = Some rt'" "pages pgr15 ?left = Some l'"
    "pages pgr15 new = Some (write32 2 ?root n')"
    using p10 ne
    by (simp_all add: pgr15_def pgr14_def pgr13_def pgr12_def node_update_simps rt'_def l'_def
        offsets)
  have np15: "num_pages pgr15 = ?left + 1"
    using np4'
    by (simp add: pgr15_def pgr14_def pgr13_def pgr12_def pgr10_def pgr9_def pgr7_def pgr6_def
        node_update_simps)
  have host15: "read_page pgr15 = read_page ?pgr"
    using host4
    by (simp add: pgr15_def pgr14_def pgr13_def pgr12_def pgr10_def pgr9_def pgr7_def pgr6_def
        node_update_simps pgr3_def)
  have R: "get_node_type rt' = NODE_INTERNAL" "is_node_root rt'"
    "read32 rt' internal_node_num_keys = 1" "read32 rt' internal_node_right_child = new"
    "read32 rt' (internal_node_cell 0) = ?left" "read32 rt' (internal_node_key 0) = maxk"
    by (simp_all add: rt'_def r1_def offsets node_type_simps is_root_simps read32_simps
        init_internal_node_fields)
  have L: "get_node_type l' = NODE_LEAF" "\<not> is_node_root l'" "read32 l' node_parent = ?root"
    "read32 l' leaf_node_num_cells = 7"
    "read32 l' leaf_node_next_leaf = read32 o' leaf_node_next_leaf"
    using l1_fields
    by (simp_all add: l'_def offsets node_type_simps is_root_simps read32_simps)
  have C: "\<forall>j<13. leaf_cell_at l' j = leaf_cell_at o' j"
    by (simp add: l'_def l1_def offsets sizes leaf_cell_at_header_write leaf_cell_at_root_flag
        copied_page)
  have mk: "maxk = fst (leaf_cell_at o' 6)"
    by (simp add: maxk_def leaf_cell_at_def)
  show ?thesis
    using res p15 np15 host15 R L C unfolding mk by blast
qed

subsection \<open>Splitting a leaf that is the root\<close>

lemma merged_cells_length:
  assumes "read32 old leaf_node_num_cells = LEAF_NODE_MAX_CELLS" "c \<le> 13"
  shows "length (merged_cells old c key val) = 14"
  using assms(2) by (simp add: merged_cells_def leaf_cells_13[OF assms(1)])

lemma merged_cells_nth:
  assumes "read32 old leaf_node_num_cells = LEAF_NODE_MAX_CELLS" "c \<le> 13" "j < 14"
  shows "merged_cells old c key val ! j = split_cell old c key val j"
proof -
  have len: "length (leaf_cells old) = 13"
    by (simp add: leaf_cells_13[OF assms(1)])
  show ?thesis
    unfolding merged_cells_def
    by (rule split_cell_nth[OF len assms(2,3)]) (simp add: leaf_cells_13[OF assms(1)])
qed

lemma leaf_cells_take_drop:
  assumes cnt: "read32 p leaf_node_num_cells = 7" and len: "length cells = 14"
  shows "(\<And>j. j < 7 \<Longrightarrow> leaf_cell_at p j = cells ! j) \<Longrightarrow> leaf_cells p = take 7 cells"
    and "(\<And>j. j < 7 \<Longrightarrow> leaf_cell_at p j = cells ! (7 + j)) \<Longrightarrow> leaf_cells p = drop 7 cells"
proof -
  have eq: "leaf_cells p = map (leaf_cell_at p) [0..<7]"
    by (rule leaf_cells_7[OF cnt])
  show "leaf_cells p = take 7 cells" if "\<And>j. j < 7 \<Longrightarrow> leaf_cell_at p j = cells ! j"
    unfolding eq by (rule nth_equalityI) (use len that in simp_all)
  show "leaf_cells p = drop 7 cells" if "\<And>j. j < 7 \<Longrightarrow> leaf_cell_at p j = cells ! (7 + j)"
    unfolding eq by (rule nth_equalityI) (use len that in simp_all)
qed

lemma first_key_valid:
  assumes "sorted_wrt (<) (map fst cells)" "1 < length cells"
  shows "fst (cells ! 0) \<noteq> INVALID_PAGE_NUM"
proof -
  have pos: "0 < length cells" using assms(2) by (cases cells) auto
  have "map fst cells ! 0 < map fst cells ! 1"
    using assms sorted_wrt_nth_less[of "(<)" "map fst cells" 0 1] by simp
  then have "fst (cells ! 0) < fst (cells ! 1)"
    using assms(2) pos by (simp add: nth_map del: One_nat_def)
  then have lt: "unat (fst (cells ! 0)) < unat (fst (cells ! 1))"
    by (simp add: word_less_nat_alt)
  have "unat (fst (cells ! 1)) < 2 ^ 32"
    using unsigned_less[of "fst (cells ! 1)"] by simp
  then have "unat (fst (cells ! 0)) \<noteq> 4294967295"
    using lt by simp
  then show ?thesis
    by (auto simp: sizes)
qed

lemma page_numbers_apart:
  fixes a n :: u32
  assumes "a < n" "n < TABLE_MAX_PAGES - 1"
  shows "a < TABLE_MAX_PAGES" "n < TABLE_MAX_PAGES" "n + 1 < TABLE_MAX_PAGES" "a \<noteq> n"
    "a \<noteq> n + 1" "n \<noteq> n + 1"
  using assms by (auto simp: sizes word_less_nat_alt unat_word_ariths)

lemma leaf_node_split_and_insert_root:
  assumes loaded: "pages (pager table) (page_num cursor) = Some o0"
    and at_root: "page_num cursor = root_page_num table"
    and below: "page_num cursor < num_pages (pager table)"
    and room: "num_pages (pager table) < TABLE_MAX_PAGES - 1"
    and rd: "\<forall>n b. read_page (pager table) n b \<noteq> None"
    and leaf: "get_node_type o0 = NODE_LEAF" and isr: "is_node_root o0"
    and full: "read32 o0 leaf_node_num_cells = LEAF_NODE_MAX_CELLS"
    and pos: "cell_num cursor \<le> LEAF_NODE_MAX_CELLS"
    and srt: "sorted_wrt (<) (map fst (merged_cells o0 (unat (cell_num cursor)) key val))"
  shows "\<exists>t' rt' l' n'.
      leaf_node_split_and_insert (Suc fuel) table cursor key val = Inr t'
    \<and> root_page_num t' = root_page_num table
    \<and> num_pages (pager t') = num_pages (pager table) + 2
    \<and> read_page (pager t') = read_page (pager table)
    \<and> pages (pager t') (root_page_num table) = Some rt'
    \<and> pages (pager t') (num_pages (pager table) + 1) = Some l'
    \<and> pages (pager t') (num_pages (pager table)) = Some n'
    \<and> get_node_type rt' = NODE_INTERNAL \<and> is_node_root rt'
    \<and> read32 rt' internal_node_num_keys = 1
    \<and> read32 rt' (internal_node_cell 0) = num_pages (pager table) + 1
    \<and> read32 rt' (internal_node_key 0)
         = fst (merged_cells o0 (unat (cell_num cursor)) key val ! 6)
    \<and> read32 rt' internal_node_right_child = num_pages (pager table)
    \<and> get_node_type l' = NODE_LEAF \<and> \<not> is_node_root l'
    \<and> read32 l' node_parent = root_page_num table
    \<and> read32 l' leaf_node_num_cells = 7
    \<and> leaf_cells l' = take 7 (merged_cells o0 (unat (cell_num cursor)) key val)
    \<and> read32 l' leaf_node_next_leaf = num_pages (pager table)
    \<and> get_node_type n' = NODE_LEAF \<and> \<not> is_node_root n'
    \<and> read32 n' node_parent = root_page_num table
    \<and> read32 n' leaf_node_num_cells = 7
    \<and> leaf_cells n' = drop 7 (merged_cells o0 (unat (cell_num cursor)) key val)
    \<and> read32 n' leaf_node_next_leaf = read32 o0 leaf_node_next_leaf"
proof -
  let ?old = "page_num cursor"
  let ?new = "num_pages (pager table)"
  let ?c = "unat (cell_num cursor)"
  let ?m = "merged_cells o0 ?c key val"
  note pn = page_numbers_apart[OF below room]
  have c13: "?c \<le> 13"
    using pos by (simp add: sizes word_le_nat_alt)
  have rdn: "read_page (pager table) ?new (malloc_page (pager table) ?new) \<noteq> None"
    using rd by simp
  from leaf_node_split_cells_result[OF loaded pn(1,2,4) leaf full pos rdn, of fuel key val]
  obtain pgr' o' n' where
    cells: "leaf_node_split_cells (Suc fuel) table cursor key val
              = Inr (?new, read32 o0 (leaf_node_key 12), pgr')"
    and pg: "pages pgr' ?old = Some o'" "pages pgr' ?new = Some n'"
    and np: "num_pages pgr' = ?new + 1"
    and host: "read_page pgr' = read_page (pager table)"
    and hdo: "\<forall>a<6. o' a = o0 a"
    and o_f: "read32 o' 6 = 7" "read32 o' 10 = ?new"
    and n_f: "get_node_type n' = NODE_LEAF" "\<not> is_node_root n'" "read32 n' 6 = 7"
      "read32 n' 10 = read32 o0 10"
    and co: "\<forall>j<7. leaf_cell_at o' j = split_cell o0 ?c key val j"
    and cn: "\<forall>j<7. leaf_cell_at n' j = split_cell o0 ?c key val (7 + j)"
    by blast
  have ho: "get_node_type o' = NODE_LEAF" "is_node_root o'"
    using header_bytes(1,2)[OF hdo] leaf isr by simp_all
  have nth: "\<And>j. j < 14 \<Longrightarrow> ?m ! j = split_cell o0 ?c key val j"
    by (rule merged_cells_nth[OF full c13])
  have len: "length ?m = 14"
    by (rule merged_cells_length[OF full c13])
  have k0: "fst (leaf_cell_at o' 0) \<noteq> INVALID_PAGE_NUM"
    using first_key_valid[OF srt] len co nth[of 0] by simp
  let ?t1 = "table\<lparr>pager := pgr'\<rparr>"
  have pr1: "pages (pager ?t1) (root_page_num ?t1) = Some o'" "root_page_num ?t1 < TABLE_MAX_PAGES"
    and pn1: "pages (pager ?t1) ?new = Some n'" "?new < TABLE_MAX_PAGES"
    and lb1: "num_pages (pager ?t1) < TABLE_MAX_PAGES"
    and ne1: "root_page_num ?t1 \<noteq> ?new" "root_page_num ?t1 \<noteq> num_pages (pager ?t1)"
      "?new \<noteq> num_pages (pager ?t1)"
    and rd1: "read_page (pager ?t1) (num_pages (pager ?t1))
                (malloc_page (pager ?t1) (num_pages (pager ?t1))) \<noteq> None"
    using pg np pn rd host at_root by simp_all
  have cnt1: "read32 o' leaf_node_num_cells = 7"
    using o_f by (simp add: offsets)
  from create_new_root_leaf[OF pr1 pn1 lb1 ne1 rd1 ho(1) cnt1 k0, of fuel]
  obtain pgr2 rt' l' where
    root: "create_new_root (Suc fuel) ?t1 ?new = Inr (?t1\<lparr>pager := pgr2\<rparr>)"
    and p2: "pages pgr2 (root_page_num table) = Some rt'" "pages pgr2 (?new + 1) = Some l'"
      "pages pgr2 ?new = Some (write32 2 (root_page_num table) n')"
    and np2: "num_pages pgr2 = ?new + 1 + 1" and host2: "read_page pgr2 = read_page pgr'"
    and R: "get_node_type rt' = NODE_INTERNAL" "is_node_root rt'"
      "read32 rt' internal_node_num_keys = 1" "read32 rt' internal_node_right_child = ?new"
      "read32 rt' (internal_node_cell 0) = ?new + 1"
      "read32 rt' (internal_node_key 0) = fst (leaf_cell_at o' 6)"
    and L: "get_node_type l' = NODE_LEAF" "\<not> is_node_root l'"
      "read32 l' node_parent = root_page_num table" "read32 l' leaf_node_num_cells = 7"
      "read32 l' leaf_node_next_leaf = read32 o' leaf_node_next_leaf"
    and LC: "\<forall>j<13. leaf_cell_at l' j = leaf_cell_at o' j"
    unfolding np by (auto simp: np)
  define t' where "t' = table\<lparr>pager := pgr2\<rparr>"
  have res: "leaf_node_split_and_insert (Suc fuel) table cursor key val = Inr t'"
    using ho(2) root
    by (simp add: leaf_node_split_and_insert_def cells node_at_loaded[OF pg(1)] t'_def)
  define n2 where "n2 = write32 2 (root_page_num table) n'"
  have N: "get_node_type n2 = NODE_LEAF" "\<not> is_node_root n2"
    "read32 n2 node_parent = root_page_num table" "read32 n2 leaf_node_num_cells = 7"
    "read32 n2 leaf_node_next_leaf = read32 o0 leaf_node_next_leaf"
    using n_f by (simp_all add: n2_def offsets node_type_simps is_root_simps read32_simps)
  have NC: "leaf_cells n2 = drop 7 ?m"
  proof (rule leaf_cells_take_drop(2)[OF N(4) len])
    fix j :: nat assume j: "j < 7"
    then have "leaf_cell_at n2 j = leaf_cell_at n' j"
      by (simp add: n2_def leaf_cell_at_header_write)
    then show "leaf_cell_at n2 j = ?m ! (7 + j)"
      using cn j nth[of "7 + j"] by simp
  qed
  have LCs: "leaf_cells l' = take 7 ?m"
  proof (rule leaf_cells_take_drop(1)[OF L(4) len])
    fix j :: nat assume j: "j < 7"
    then show "leaf_cell_at l' j = ?m ! j"
      using LC co nth[of j] by simp
  qed
  have k6: "fst (leaf_cell_at o' 6) = fst (?m ! 6)"
    using co nth[of 6] by simp
  have nl: "read32 l' leaf_node_next_leaf = ?new"
    using L(5) o_f by (simp add: offsets)
  have T: "root_page_num t' = root_page_num table" "num_pages (pager t') = ?new + 2"
    "read_page (pager t') = read_page (pager table)"
    "pages (pager t') (root_page_num table) = Some rt'"
    "pages (pager t') (?new + 1) = Some l'" "pages (pager t') ?new = Some n2"
    using p2 np2 host2 host by (simp_all add: t'_def n2_def)
  show ?thesis
    using res T R(1,2,3,5) R(6)[unfolded k6] R(4) L(1,2,3,4) LCs nl N(1,2,3,4) NC N(5)
    by blast
qed





subsection \<open>A root with two leaves\<close>

lemma execute_insert_leaf_root_full:
  assumes st: "leaf_root_state t cells" and full: "length cells = 13"
    and keys: "sorted_wrt (<) (map fst cells)"
    and above: "\<forall>c \<in> set cells. fst c < id_field r" and fuel: "13 < fuel"
  shows "\<exists>t'. execute_insert fuel \<lparr>type = STATEMENT_INSERT, row = r\<rparr> t
                = Inr (EXECUTE_SUCCESS, t')
             \<and> split_root_state t' (cells @ [(id_field r, stored_row r)])"
proof -
  let ?key = "id_field r"
  let ?cur = "\<lparr>page_num = 0, cell_num = 13, end_of_table = False\<rparr>"
  let ?m = "cells @ [(?key, stored_row r)]"
  obtain f where f: "fuel = Suc f"
    using fuel by (cases fuel) simp_all
  from st obtain p where
    root: "root_page_num t = 0" and np: "num_pages (pager t) = 1"
    and rdp: "\<forall>n b. read_page (pager t) n b = Some b"
    and pg: "pages (pager t) 0 = Some p" and leaf: "get_node_type p = NODE_LEAF"
    and isr: "is_node_root p" and cells: "leaf_cells p = cells"
    unfolding leaf_root_state_def by blast
  have n13: "length cells \<le> 13" using full by simp
  have cnt: "read32 p leaf_node_num_cells = 13"
    and nth: "\<And>i. i < 13 \<Longrightarrow> leaf_cell_at p i = cells ! i"
    using leaf_cells_count[OF cells n13] full by simp_all
  have pg': "pages (pager t) (root_page_num t) = Some p" "root_page_num t < TABLE_MAX_PAGES"
    using pg root by (simp_all add: sizes)
  have ab: "\<forall>i<13. fst (leaf_cell_at p i) < ?key"
    using above nth full by simp
  have cnt': "read32 p leaf_node_num_cells = of_nat 13"
    using cnt by simp
  have find: "table_find fuel t ?key = Inr (?cur, t)"
    using table_find_leaf_root_above[OF pg' leaf cnt' _ ab fuel] root by simp
  have merged: "merged_cells p (unat (cell_num ?cur)) ?key r = ?m"
    using full by (simp add: merged_cells_def cells)
  have H: "pages (pager t) (page_num ?cur) = Some p" "page_num ?cur = root_page_num t"
    "page_num ?cur < num_pages (pager t)" "num_pages (pager t) < TABLE_MAX_PAGES - 1"
    "\<forall>n b. read_page (pager t) n b \<noteq> None"
    "read32 p leaf_node_num_cells = LEAF_NODE_MAX_CELLS" "cell_num ?cur \<le> LEAF_NODE_MAX_CELLS"
    "sorted_wrt (<) (map fst (merged_cells p (unat (cell_num ?cur)) ?key r))"
    using pg root np rdp cnt keys above unfolding merged
    by (simp_all add: sizes sorted_wrt_append)
  from leaf_node_split_and_insert_root[OF H(1,2,3,4,5) leaf isr H(6,7,8), of f]
  obtain t' rt' l' n' where
    split: "leaf_node_split_and_insert (Suc f) t ?cur ?key r = Inr t'"
    and T: "root_page_num t' = root_page_num t"
      "pages (pager t') (root_page_num t) = Some rt'"
      "pages (pager t') (num_pages (pager t) + 1) = Some l'"
      "pages (pager t') (num_pages (pager t)) = Some n'"
    and R: "get_node_type rt' = NODE_INTERNAL"
      "read32 rt' internal_node_num_keys = 1"
      "read32 rt' (internal_node_cell 0) = num_pages (pager t) + 1"
      "read32 rt' (internal_node_key 0) = fst (?m ! 6)"
      "read32 rt' internal_node_right_child = num_pages (pager t)"
    and L: "get_node_type l' = NODE_LEAF" "leaf_cells l' = take 7 ?m"
    and N: "get_node_type n' = NODE_LEAF" "leaf_cells n' = drop 7 ?m"
    unfolding merged by blast
  have pg0: "pages (pager t) 0 = Some p" "0 < TABLE_MAX_PAGES"
    using pg by (simp_all add: sizes)
  have ins: "leaf_node_insert fuel t ?cur ?key r = Inr t'"
    unfolding leaf_node_insert_def Let_def f
    by (simp add: get_page_loaded[OF pg0] node_at_loaded[OF pg] cnt sizes split)
  have res: "execute_insert fuel \<lparr>type = STATEMENT_INSERT, row = r\<rparr> t = Inr (EXECUTE_SUCCESS, t')"
    unfolding execute_insert_def Let_def
    by (simp add: root get_page_loaded[OF pg0] find ins node_at_loaded[OF pg] cnt)
  have T': "root_page_num t' = 0" "pages (pager t') 0 = Some rt'" "pages (pager t') 2 = Some l'"
    "pages (pager t') 1 = Some n'"
    using T root np by simp_all
  have R': "read32 rt' (internal_node_cell 0) = 2" "read32 rt' internal_node_right_child = 1"
    using R np by simp_all
  have len: "length ?m = 14" using full by simp
  have "split_root_state t' ?m"
    unfolding split_root_state_def
    using T' len R(1,2) R'(1) R(4) R'(2) L N by blast
  then show ?thesis using res by blast
qed

subsection \<open>Inserting the largest key again\<close>

lemma internal_node_find_child_right:
  assumes "read32 rt internal_node_num_keys = 1" "read32 rt (internal_node_key 0) < key"
  shows "internal_node_find_child (Suc (Suc fuel)) rt key = Inr 1"
  using assms
  by (simp add: internal_node_find_child_def Let_def not_le[symmetric])

lemma table_find_right_leaf_last:
  assumes st: "split_root_state t cells" and keys: "sorted_wrt (<) (map fst cells)"
    and fuel: "7 < fuel"
  shows "table_find fuel t (fst (cells ! 13))
           = Inr (\<lparr>page_num = 1, cell_num = 6, end_of_table = False\<rparr>, t)"
proof -
  let ?key = "fst (cells ! 13)"
  obtain f1 where f1: "fuel = Suc f1" and f1b: "6 < f1"
    using fuel by (cases fuel) simp_all
  obtain f2 where f2: "f1 = Suc f2" using f1b by (cases f1) simp_all
  obtain f3 where f3: "f2 = Suc f3" using f1b f2 by (cases f2) simp_all
  from st obtain rt l n where
    root: "root_page_num t = 0" and len: "length cells = 14"
    and pg: "pages (pager t) 0 = Some rt" "pages (pager t) 1 = Some n"
    and R: "get_node_type rt = NODE_INTERNAL" "read32 rt internal_node_num_keys = 1"
      "read32 rt (internal_node_key 0) = fst (cells ! 6)"
      "read32 rt internal_node_right_child = 1"
    and N: "get_node_type n = NODE_LEAF" "leaf_cells n = drop 7 cells"
    unfolding split_root_state_def by blast
  have lt: "\<And>i j. i < j \<Longrightarrow> j < 14 \<Longrightarrow> fst (cells ! i) < fst (cells ! j)"
    using keys len sorted_wrt_nth_less[of "(<)" "map fst cells"] by simp
  have g0: "get_page (pager t) 0 = Inr (pager t)" and g1: "get_page (pager t) 1 = Inr (pager t)"
    using pg by (simp_all add: get_page_loaded sizes)
  have ln7: "length (drop 7 cells) \<le> 13" using len by simp
  have ncnt: "read32 n leaf_node_num_cells = of_nat (6 + 1)"
    and nnth: "\<And>i. i < 7 \<Longrightarrow> leaf_cell_at n i = cells ! (7 + i)"
    using leaf_cells_count[OF N(2) ln7] len by simp_all
  have child: "internal_node_find_child f1 rt ?key = Inr 1"
    unfolding f2 f3
    by (rule internal_node_find_child_right[OF R(2)]) (simp add: R(3) lt)
  have slot: "internal_node_child rt 1 = Inr internal_node_right_child"
    by (simp add: internal_node_child_def R(2,4) sizes)
  have below: "\<forall>i. 0 \<le> i \<and> i < 6 \<longrightarrow> fst (leaf_cell_at n i) < ?key"
    using nnth lt by simp
  have at6: "fst (leaf_cell_at n 6) = ?key"
    using nnth[of 6] by simp
  have loop: "leaf_node_find_loop f1 n ?key (of_nat 0) (of_nat (6 + 1)) = Inr (of_nat 6)"
    by (rule leaf_node_find_loop_last[OF below at6]) (use f1b in simp_all)
  have lf: "leaf_node_find f1 t 1 ?key
              = Inr (\<lparr>page_num = 1, cell_num = 6, end_of_table = False\<rparr>, t)"
    using loop
    by (simp add: leaf_node_find_def g1 node_at_loaded[OF pg(2)] ncnt del: of_nat_add)
  have nint: "NODE_LEAF \<noteq> NODE_INTERNAL" "NODE_INTERNAL \<noteq> NODE_LEAF"
    by (simp_all add: layout_defs)
  have inf: "internal_node_find fuel t 0 ?key
              = Inr (\<lparr>page_num = 1, cell_num = 6, end_of_table = False\<rparr>, t)"
    unfolding f1
    by (simp add: g0 node_at_loaded[OF pg(1)] child slot R(4) g1 node_at_loaded[OF pg(2)] N(1)
        nint lf)
  show ?thesis
    by (simp add: table_find_def root g0 node_at_loaded[OF pg(1)] R(1) nint inf)
qed

lemma execute_insert_duplicate_accepted:
  assumes st: "split_root_state t cells" and keys: "sorted_wrt (<) (map fst cells)"
    and key: "id_field r = fst (cells ! 13)" and fuel: "7 < fuel"
  shows "\<exists>t'. execute_insert fuel \<lparr>type = STATEMENT_INSERT, row = r\<rparr> t
                 = Inr (EXECUTE_SUCCESS, t')"
proof -
  from st obtain rt n where
    root: "root_page_num t = 0" and len: "length cells = 14"
    and pg: "pages (pager t) 0 = Some rt" "pages (pager t) 1 = Some n"
    and R: "read32 rt internal_node_num_keys = 1"
    and N: "leaf_cells n = drop 7 cells"
    unfolding split_root_state_def by blast
  have g0: "get_page (pager t) 0 = Inr (pager t)" and g1: "get_page (pager t) 1 = Inr (pager t)"
    using pg by (simp_all add: get_page_loaded sizes)
  have ln7: "length (drop 7 cells) \<le> 13" using len by simp
  have ncnt: "read32 n leaf_node_num_cells = 7"
    using leaf_cells_count(1)[OF N ln7] len by simp
  have find: "table_find fuel t (id_field r)
                = Inr (\<lparr>page_num = 1, cell_num = 6, end_of_table = False\<rparr>, t)"
    unfolding key by (rule table_find_right_leaf_last[OF st keys fuel])
  have rcnt: "read32 rt leaf_node_num_cells = 1"
    using R by (simp add: offsets)
  have ins: "\<exists>t'. leaf_node_insert fuel t \<lparr>page_num = 1, cell_num = 6, end_of_table = False\<rparr>
                     (id_field r) r = Inr t'"
    unfolding leaf_node_insert_def Let_def
    by (simp add: g1 node_at_loaded[OF pg(2)] ncnt sizes)
  then obtain t' where
    ins': "leaf_node_insert fuel t \<lparr>page_num = 1, cell_num = 6, end_of_table = False\<rparr>
             (id_field r) r = Inr t'"
    by blast
  have "execute_insert fuel \<lparr>type = STATEMENT_INSERT, row = r\<rparr> t = Inr (EXECUTE_SUCCESS, t')"
    unfolding execute_insert_def Let_def
    by (simp add: root g0 node_at_loaded[OF pg(1)] rcnt find ins')
  then show ?thesis by blast
qed

text \<open>
  Claim C3.  The duplicate test of \<^verbatim>\<open>execute_insert\<close> does not look at the leaf of the
  cursor: it takes \<^verbatim>\<open>num_cells\<close> and the key from the root page.  After 14 rows with
  ascending ids have been inserted into the empty database, the root is an internal node
  with one key, and the field read as \<^verbatim>\<open>num_cells\<close> holds 1.  For a row with the id of
  the last of the 14 rows, \<^verbatim>\<open>table_find\<close> returns a cursor into a leaf that holds a
  cell with exactly this key at the cell of the cursor, and \<^verbatim>\<open>execute_insert\<close> returns
  \<^verbatim>\<open>EXECUTE_SUCCESS\<close>, not \<^verbatim>\<open>EXECUTE_DUPLICATE_KEY\<close>.
\<close>

theorem duplicate_key_accepted_after_split:
  assumes "length rows = 14" and "sorted_wrt (<) (map id_field rows)"
    and "id_field r = id_field (last rows)" and "13 < fuel"
  shows "\<exists>t cursor leaf t'.
      execute_statements fuel (map insert_statement rows) empty_table
        = ([], replicate 14 EXECUTE_SUCCESS, Inr t)
    \<and> table_find fuel t (id_field r) = Inr (cursor, t)
    \<and> pages (pager t) (page_num cursor) = Some leaf
    \<and> get_node_type leaf = NODE_LEAF
    \<and> cell_num cursor < read32 leaf leaf_node_num_cells
    \<and> read32 leaf (leaf_node_key (cell_num cursor)) = id_field r
    \<and> execute_insert fuel (insert_statement r) t = Inr (EXECUTE_SUCCESS, t')"
proof -
  define front where "front = butlast rows"
  define final where "final = last rows"
  have rows: "rows = front @ [final]"
    using assms(1) by (cases rows rule: rev_cases) (simp_all add: front_def final_def)
  have lf: "length front = 13"
    using assms(1) rows by simp
  have sf: "sorted_wrt (<) (map id_field front)"
    and ab: "\<forall>x \<in> set front. id_field x < id_field final"
    using assms(2) unfolding rows by (auto simp: sorted_wrt_append)
  have f13: "13 \<le> fuel" and f7: "7 < fuel" using assms(4) by simp_all
  have lf13: "length front \<le> 13" using lf by simp
  from inserts_into_leaf_root[OF lf13 sf f13] obtain t13 where
    run13: "execute_statements fuel (map insert_statement front) empty_table
              = ([], replicate (length front) EXECUTE_SUCCESS, Inr t13)"
    and st13: "leaf_root_state t13 (map cell_of front)"
    by blast
  have len13: "length (map cell_of front) = 13" using lf by simp
  have keys13: "sorted_wrt (<) (map fst (map cell_of front))"
    using sf by (simp add: cell_of_def comp_def)
  have ab13: "\<forall>c \<in> set (map cell_of front). fst c < id_field final"
    using ab by (simp add: cell_of_def)
  from execute_insert_leaf_root_full[OF st13 len13 keys13 ab13 assms(4)] obtain t where
    ins14: "execute_insert fuel \<lparr>type = STATEMENT_INSERT, row = final\<rparr> t13
              = Inr (EXECUTE_SUCCESS, t)"
    and st: "split_root_state t (map cell_of front @ [(id_field final, stored_row final)])"
    by blast
  have cells: "map cell_of front @ [(id_field final, stored_row final)] = map cell_of rows"
    by (simp add: rows cell_of_def)
  have st': "split_root_state t (map cell_of rows)"
    using st unfolding cells .
  have keys: "sorted_wrt (<) (map fst (map cell_of rows))"
    using assms(2) by (simp add: cell_of_def comp_def)
  have k13: "fst (map cell_of rows ! 13) = id_field r"
    using assms(3) lf by (simp add: rows cell_of_def final_def[symmetric] nth_append)
  have r14: "replicate 14 EXECUTE_SUCCESS = EXECUTE_SUCCESS # replicate 13 EXECUTE_SUCCESS"
    by (simp add: eval_nat_numeral)
  have run: "execute_statements fuel (map insert_statement rows) empty_table
               = ([], replicate 14 EXECUTE_SUCCESS, Inr t)"
    unfolding rows r14
    by (simp add: execute_statements_append run13 execute_statement_insert ins14 lf
        replicate_append_same)
  have find: "table_find fuel t (id_field r)
                = Inr (\<lparr>page_num = 1, cell_num = 6, end_of_table = False\<rparr>, t)"
    using table_find_right_leaf_last[OF st' keys f7] unfolding k13 .
  from st' obtain n where
    pg: "pages (pager t) 1 = Some n" and leaf: "get_node_type n = NODE_LEAF"
    and nc: "leaf_cells n = drop 7 (map cell_of rows)"
    unfolding split_root_state_def by blast
  have ln7: "length (drop 7 (map cell_of rows)) \<le> 13" using assms(1) by simp
  have cnt: "read32 n leaf_node_num_cells = 7"
    and nth: "leaf_cell_at n 6 = map cell_of rows ! 13"
    using leaf_cells_count[OF nc ln7] assms(1) by simp_all
  have at6: "read32 n (leaf_node_key 6) = id_field r"
    using nth k13 leaf_key_at[of n 6] by simp
  have key: "id_field r = fst (map cell_of rows ! 13)"
    using k13 by simp
  from execute_insert_duplicate_accepted[OF st' keys key f7] obtain t' where
    dup: "execute_insert fuel \<lparr>type = STATEMENT_INSERT, row = r\<rparr> t = Inr (EXECUTE_SUCCESS, t')"
    by blast
  show ?thesis
    using run find pg leaf cnt at6 dup
    by (intro exI[of _ t] exI[of _ "\<lparr>page_num = 1, cell_num = 6, end_of_table = False\<rparr>"]
        exI[of _ n] exI[of _ t']) (simp add: insert_statement_def)
qed

theorem duplicate_key_accepted_after_split_witness:
  "\<exists>t t'.
      execute_statements 14
        (map (\<lambda>i. insert_statement \<lparr>id_field = of_nat i, username = [], email = []\<rparr>) [1..<15])
        empty_table
        = ([], replicate 14 EXECUTE_SUCCESS, Inr t)
    \<and> execute_insert 14 (insert_statement \<lparr>id_field = 14, username = [], email = []\<rparr>) t
        = Inr (EXECUTE_SUCCESS, t')"
proof -
  let ?rows = "map (\<lambda>i. \<lparr>id_field = of_nat i, username = [], email = []\<rparr> :: Row) [1..<15]"
  let ?r = "\<lparr>id_field = 14, username = [], email = []\<rparr> :: Row"
  have h: "length ?rows = 14" "sorted_wrt (<) (map id_field ?rows)"
    "id_field ?r = id_field (last ?rows)" "13 < (14 :: nat)"
    by (simp_all add: upt_rec)
  from duplicate_key_accepted_after_split[OF h] obtain t t' where
    "execute_statements 14 (map insert_statement ?rows) empty_table
       = ([], replicate 14 EXECUTE_SUCCESS, Inr t)"
    "execute_insert 14 (insert_statement ?r) t = Inr (EXECUTE_SUCCESS, t')"
    by blast
  then show ?thesis
    by (auto simp: comp_def)
qed

subsection \<open>Pages that an insertion into the parent leaves alone\<close>











subsection \<open>Splitting a leaf below a parent that has room\<close>



subsection \<open>The split of the rightmost leaf returns\<close>







subsection \<open>The two leaves on return\<close>








end
